theory Spec2Isabelle
  imports Main "HOL-Library.AList" "HOL-Library.Sublist" "HOL-Library.Multiset"
    "HOL-Library.Char_ord" "HOL-Library.List_Lexorder"
begin

section \<open>Strings and the standard library calls of main.go\<close>

text \<open>
  A Go string is a sequence of bytes; it is modelled as a \<open>char list\<close>. The named bytes
  below are the ones the regular expressions of main.go distinguish.
\<close>

definition newline :: char where
  "newline = CHR 0x0A"

definition pathSeparator :: string where
  "pathSeparator = ''/''"

text \<open>The class \<open>\s\<close> of Go's regexp syntax: tab, newline, form feed, carriage return, space.\<close>

definition spaceClass :: "char list" where
  "spaceClass = [CHR 0x09, CHR 0x0A, CHR 0x0C, CHR 0x0D, CHR '' '']"

definition digitClass :: "char list" where
  "digitClass = ''0123456789''"

definition HasPrefix :: "string \<Rightarrow> string \<Rightarrow> bool" where
  "HasPrefix s p = (take (length p) s = p)"

definition HasSuffix :: "string \<Rightarrow> string \<Rightarrow> bool" where
  "HasSuffix s p = (length p \<le> length s \<and> drop (length s - length p) s = p)"

text \<open>
  \<open>Cut sep s\<close> finds the first occurrence of the separator \<open>sep\<close> in \<open>s\<close> and returns the
  text before and after it. Every separator main.go passes is non-empty.
\<close>

fun Cut :: "string \<Rightarrow> string \<Rightarrow> (string \<times> string) option" where
  "Cut sep [] = (if sep = [] then Some ([], []) else None)"
| "Cut sep (c # cs) =
     (if HasPrefix (c # cs) sep then Some ([], drop (length sep) (c # cs))
      else (case Cut sep cs of None \<Rightarrow> None | Some (a, b) \<Rightarrow> Some (c # a, b)))"

text \<open>
  \<open>strings.SplitN(s, sep, n)\<close> for \<open>n \<ge> 0\<close>: at most \<open>n\<close> pieces, the last one the unsplit
  remainder. \<open>strings.Split\<close> has no limit; a string of \<open>k\<close> bytes has at most
  \<open>k + 1\<close> pieces.
\<close>

fun SplitN :: "string \<Rightarrow> string \<Rightarrow> nat \<Rightarrow> string list" where
  "SplitN s sep 0 = []"
| "SplitN s sep (Suc 0) = [s]"
| "SplitN s sep (Suc (Suc n)) =
     (case Cut sep s of None \<Rightarrow> [s] | Some (a, b) \<Rightarrow> a # SplitN b sep (Suc n))"

definition Split :: "string \<Rightarrow> string \<Rightarrow> string list" where
  "Split s sep = SplitN s sep (Suc (length s))"

fun Join :: "string list \<Rightarrow> string \<Rightarrow> string" where
  "Join [] sep = []"
| "Join [p] sep = p"
| "Join (p # q # ps) sep = p @ sep @ Join (q # ps) sep"

text \<open>\<open>strings.Count(s, "\n")\<close>: the number of newline bytes of \<open>s\<close>.\<close>

definition CountNewlines :: "string \<Rightarrow> nat" where
  "CountNewlines s = length (filter (\<lambda>c. c = newline) s)"

section \<open>Regular expressions of Go's regexp package\<close>

text \<open>
  The fragment of the regexp syntax that main.go uses: literal bytes, \<open>.\<close> (any byte but
  newline), a character class, the anchors \<open>^\<close> and \<open>$\<close> (beginning and end of the text,
  no multi-line flag is set), concatenation, alternation, the greedy star and a capturing
  group.
\<close>

datatype re =
    Chr char
  | Dot
  | Cls "char list"
  | Bol
  | Eol
  | Eps
  | Seq re re
  | Alt re re
  | Star re
  | Grp re

text \<open>
  A matcher state: whether the position is the beginning of the text, the input that is
  left, and the texts captured so far, in the order the groups closed.
\<close>

type_synonym mstate = "bool \<times> string \<times> string list"

fun stepChar :: "(char \<Rightarrow> bool) \<Rightarrow> mstate \<Rightarrow> mstate list" where
  "stepChar P (b, [], caps) = []"
| "stepChar P (b, c # cs, caps) = (if P c then [(False, cs, caps)] else [])"

text \<open>
  \<open>rmatch r st\<close> lists the states in which a match of \<open>r\<close> that starts in \<open>st\<close> can end,
  in the order a backtracking search finds them: the left alternative first, and more
  iterations of a star first. An iteration of a star has to consume input.
\<close>

fun rmatch :: "re \<Rightarrow> mstate \<Rightarrow> mstate list" where
  "rmatch (Chr c) st = stepChar (\<lambda>x. x = c) st"
| "rmatch Dot st = stepChar (\<lambda>x. x \<noteq> newline) st"
| "rmatch (Cls cs) st = stepChar (\<lambda>x. x \<in> set cs) st"
| "rmatch Bol (b, s, caps) = (if b then [(b, s, caps)] else [])"
| "rmatch Eol (b, s, caps) = (if s = [] then [(b, s, caps)] else [])"
| "rmatch Eps st = [st]"
| "rmatch (Seq r1 r2) st = concat (map (rmatch r2) (rmatch r1 st))"
| "rmatch (Alt r1 r2) st = rmatch r1 st @ rmatch r2 st"
| "rmatch (Star r) (b, s, caps) =
     concat (map (\<lambda>(b', s', caps').
                    if length s' < length s then rmatch (Star r) (b', s', caps') else [])
                 (rmatch r (b, s, caps)))
     @ [(b, s, caps)]"
| "rmatch (Grp r) (b, s, caps) =
     map (\<lambda>(b', s', caps'). (b', s', caps' @ [take (length s - length s') s]))
         (rmatch r (b, s, caps))"

text \<open>A literal string, and \<open>r+\<close>.\<close>

fun lit :: "string \<Rightarrow> re" where
  "lit [] = Eps"
| "lit (c # cs) = Seq (Chr c) (lit cs)"

definition Plus :: "re \<Rightarrow> re" where
  "Plus r = Seq r (Star r)"

text \<open>
  The start states of an unanchored search, leftmost first: every position of the text,
  the end included.
\<close>

fun starts :: "bool \<Rightarrow> string \<Rightarrow> mstate list" where
  "starts b [] = [(b, [], [])]"
| "starts b (c # cs) = (b, c # cs, []) # starts False cs"

definition MatchString :: "re \<Rightarrow> string \<Rightarrow> bool" where
  "MatchString r s = list_ex (\<lambda>st. rmatch r st \<noteq> []) (starts True s)"

text \<open>
  The leftmost match, and among the matches that start there the first one of the
  backtracking order: the start index, the matched text and the captured texts.
\<close>

fun findFirst :: "re \<Rightarrow> nat \<Rightarrow> mstate list \<Rightarrow> (nat \<times> string \<times> string list) option" where
  "findFirst r i [] = None"
| "findFirst r i ((b, s, caps) # sts) =
     (case rmatch r (b, s, caps) of
        [] \<Rightarrow> findFirst r (Suc i) sts
      | (b', s', caps') # _ \<Rightarrow> Some (i, take (length s - length s') s, caps'))"

text \<open>\<open>FindStringSubmatch\<close>: nil (the empty list) without a match, else the match and the groups.\<close>

definition FindStringSubmatch :: "re \<Rightarrow> string \<Rightarrow> string list" where
  "FindStringSubmatch r s =
     (case findFirst r 0 (starts True s) of None \<Rightarrow> [] | Some (i, m, caps) \<Rightarrow> m # caps)"

text \<open>\<open>FindStringIndex\<close>: nil without a match, else the start and end index of the match.\<close>

definition FindStringIndex :: "re \<Rightarrow> string \<Rightarrow> nat list" where
  "FindStringIndex r s =
     (case findFirst r 0 (starts True s) of None \<Rightarrow> [] | Some (i, m, caps) \<Rightarrow> [i, i + length m])"

section \<open>The patterns of main.go\<close>

text \<open>\<open>inlineIgnore = "//.*untested section(\\s|,|$)"\<close>\<close>

definition inlineIgnore :: re where
  "inlineIgnore =
     Seq (lit ''//'') (Seq (Star Dot) (Seq (lit ''untested section'')
       (Grp (Alt (Cls spaceClass) (Alt (Chr CHR '','') Eol)))))"

definition anyInlineIgnore :: re where
  "anyInlineIgnore = inlineIgnore"

text \<open>\<open>"^\\s*" + inlineIgnore\<close>\<close>

definition startsWithInlineIgnore :: re where
  "startsWithInlineIgnore = Seq Bol (Seq (Star (Cls spaceClass)) inlineIgnore)"

text \<open>\<open>"// *untested sections: *([0-9]+)"\<close>\<close>

definition perFileIgnore :: re where
  "perFileIgnore =
     Seq (lit ''//'') (Seq (Star (Chr CHR '' '')) (Seq (lit ''untested sections:'')
       (Seq (Star (Chr CHR '' '')) (Grp (Plus (Cls digitClass))))))"

text \<open>\<open>"/*generated.*\\.go$"\<close>\<close>

definition generatedFile :: re where
  "generatedFile =
     Seq (Star (Chr CHR ''/'')) (Seq (lit ''generated'') (Seq (Star Dot)
       (Seq (lit ''.go'') Eol)))"

section \<open>Data model\<close>

text \<open>
  Modelled from the spec: the declaration of the struct \<open>Section\<close> and its constructor
  \<open>NewSection\<close> are not part of main.go. The spec gives a region a path, a start and an end
  line and a sort key; Go's \<open>int\<close> is modelled as \<open>int\<close>. \<open>NewSection\<close> and the method
  \<open>Location\<close> are parameters of the functions that call them.
\<close>

record Section =
  path :: string
  startLine :: int
  endLine :: int
  sortValue :: int

text \<open>
  What stops a run: a file that cannot be read, an index outside a slice (a Go panic), and
  a failing \<open>os.Getwd\<close>.
\<close>

datatype error = FileError string | IndexOutOfRange | GetwdError

text \<open>
  The result of \<open>os.Stat\<close> as far as main.go looks at it: success, the error that
  \<open>os.IsNotExist\<close> recognises, and any other error (a component of the path is not a
  directory, a directory may not be searched).
\<close>

datatype statResult = StatOk | ErrNotExist | ErrOther

text \<open>
  The world outside the process: the contents of the readable files, \<open>os.Stat\<close>, the
  value of the environment variable GOPATH when it is set, and the working directory.
\<close>

record env =
  files :: "string \<Rightarrow> string option"
  Stat :: "string \<Rightarrow> statResult"
  GOPATH :: "string option"
  Getwd :: "string option"

text \<open>
  Modelled from the spec: the helper \<open>readFile\<close> is not part of main.go; by the spec a
  missing or unreadable file is fatal.
\<close>

definition readFile :: "env \<Rightarrow> string \<Rightarrow> error + string" where
  "readFile e p = (case files e p of None \<Rightarrow> Inl (FileError p) | Some c \<Rightarrow> Inr c)"

text \<open>
  Modelled from the spec: the helper \<open>splitWithoutEmpty\<close> is not part of main.go; the
  records of a profile are its non-empty lines.
\<close>

definition splitWithoutEmpty :: "string \<Rightarrow> string \<Rightarrow> string list" where
  "splitWithoutEmpty s delimiter = filter (\<lambda>l. l \<noteq> []) (Split s delimiter)"

text \<open>
  Modelled from the spec: the helper \<open>stringToInt\<close> is not part of main.go; it returns the
  integer that the decimal digits denote.
\<close>

definition stringToInt :: "string \<Rightarrow> int" where
  "stringToInt s = foldl (\<lambda>a c. 10 * a + (of_char c - 48)) 0 s"

text \<open>
  Modelled from the spec: the helper \<open>joinPath\<close> is not part of main.go; the candidate
  under the build root is \<open>buildRoot/src/<path>\<close>.
\<close>

definition joinPath :: "string list \<Rightarrow> string" where
  "joinPath parts = Join parts pathSeparator"

section \<open>The coverage profile parser\<close>

fun collectUntested :: "(string \<Rightarrow> Section) \<Rightarrow> string list \<Rightarrow> Section list \<Rightarrow> Section list" where
  "collectUntested NewSection [] sections = sections"
| "collectUntested NewSection (line # lines) sections =
     collectUntested NewSection lines
       (if HasSuffix line '' 0'' then sections @ [NewSection line] else sections)"

definition untestedSectionsOf :: "(string \<Rightarrow> Section) \<Rightarrow> string \<Rightarrow> Section list" where
  "untestedSectionsOf NewSection content =
     (let lines = splitWithoutEmpty content [newline]
      in if length lines = 0 then [] else collectUntested NewSection (tl lines) [])"

definition untestedSections :: "env \<Rightarrow> (string \<Rightarrow> Section) \<Rightarrow> string \<Rightarrow> error + Section list" where
  "untestedSections e NewSection coverageFilePath =
     (case readFile e coverageFilePath of
        Inl err \<Rightarrow> Inl err
      | Inr content \<Rightarrow> Inr (untestedSectionsOf NewSection content))"

section \<open>The inline-suppression filter\<close>

text \<open>Indexing a slice panics outside \<open>0 \<le> i < len\<close>.\<close>

definition lineAt :: "string list \<Rightarrow> int \<Rightarrow> error + string" where
  "lineAt lines i =
     (if 0 \<le> i \<and> i < int (length lines) then Inr (lines ! nat i) else Inl IndexOutOfRange)"

text \<open>
  The two tests of the loop body that end the scan of a section: a marker on the line
  itself, or, from line 2 on, a marker that begins the line above.
\<close>

definition ignoredAt :: "string list \<Rightarrow> int \<Rightarrow> error + bool" where
  "ignoredAt lines lineNumber =
     (case lineAt lines (lineNumber - 1) of
        Inl err \<Rightarrow> Inl err
      | Inr current \<Rightarrow>
          if MatchString anyInlineIgnore current then Inr True
          else if lineNumber \<ge> 2 then
            (case lineAt lines (lineNumber - 2) of
               Inl err \<Rightarrow> Inl err
             | Inr previous \<Rightarrow> Inr (MatchString startsWithInlineIgnore previous))
          else Inr False)"

text \<open>
  The inner loop, from \<open>lineNumber\<close> on: a marker breaks out of it, and the last line of
  the section appends the section to the result.
\<close>

function scanSection :: "string list \<Rightarrow> Section \<Rightarrow> int \<Rightarrow> Section list \<Rightarrow> error + Section list" where
  "scanSection lines section lineNumber sections =
     (if lineNumber \<le> endLine section then
        (case ignoredAt lines lineNumber of
           Inl err \<Rightarrow> Inl err
         | Inr True \<Rightarrow> Inr sections
         | Inr False \<Rightarrow>
             scanSection lines section (lineNumber + 1)
               (if lineNumber = endLine section then sections @ [section] else sections))
      else Inr sections)"
  by pat_completeness auto
termination
  by (relation "measure (\<lambda>(lines, section, lineNumber, sections). nat (endLine section + 1 - lineNumber))")
     auto

fun removeLoop :: "string list \<Rightarrow> Section list \<Rightarrow> Section list \<Rightarrow> error + Section list" where
  "removeLoop lines [] sections = Inr sections"
| "removeLoop lines (section # uncheckedSections) sections =
     (case scanSection lines section (startLine section) sections of
        Inl err \<Rightarrow> Inl err
      | Inr sections' \<Rightarrow> removeLoop lines uncheckedSections sections')"

definition removeSectionsMarkedWithInlineComment ::
    "Section list \<Rightarrow> string list \<Rightarrow> error + Section list" where
  "removeSectionsMarkedWithInlineComment sections lines = removeLoop lines sections []"

text \<open>The indices of \<open>lines\<close> that the inner loop reads from \<open>lineNumber\<close> on, in order.\<close>

function scanReads :: "string list \<Rightarrow> Section \<Rightarrow> int \<Rightarrow> int list" where
  "scanReads lines section lineNumber =
     (if lineNumber \<le> endLine section then
        (case lineAt lines (lineNumber - 1) of
           Inl err \<Rightarrow> [lineNumber - 1]
         | Inr current \<Rightarrow>
             if MatchString anyInlineIgnore current then [lineNumber - 1]
             else if lineNumber \<ge> 2 then
               (case lineAt lines (lineNumber - 2) of
                  Inl err \<Rightarrow> [lineNumber - 1, lineNumber - 2]
                | Inr previous \<Rightarrow>
                    if MatchString startsWithInlineIgnore previous
                    then [lineNumber - 1, lineNumber - 2]
                    else [lineNumber - 1, lineNumber - 2] @ scanReads lines section (lineNumber + 1))
             else [lineNumber - 1] @ scanReads lines section (lineNumber + 1))
      else [])"
  by pat_completeness auto
termination
  by (relation "measure (\<lambda>(lines, section, lineNumber). nat (endLine section + 1 - lineNumber))")
     auto

section \<open>Grouping\<close>

fun groupLoop :: "Section list \<Rightarrow> (string \<times> Section list) list \<Rightarrow> (string \<times> Section list) list" where
  "groupLoop [] grouped = grouped"
| "groupLoop (section # sections) grouped =
     groupLoop sections
       (let group = (case map_of grouped (path section) of None \<Rightarrow> [] | Some g \<Rightarrow> g)
        in AList.update (path section) (group @ [section]) grouped)"

definition groupSectionsByPath :: "Section list \<Rightarrow> (string \<times> Section list) list" where
  "groupSectionsByPath sections = groupLoop sections []"

section \<open>The path resolver\<close>

text \<open>The loop of \<open>findFile\<close>: drop leading components until \<open>os.Stat\<close> succeeds.\<close>

fun findFileLoop :: "env \<Rightarrow> string list \<Rightarrow> string list" where
  "findFileLoop e [] = []"
| "findFileLoop e (p # parts) =
     (if Stat e (Join (p # parts) pathSeparator) \<noteq> StatOk then findFileLoop e parts
      else p # parts)"

definition findFile :: "env \<Rightarrow> string \<Rightarrow> string" where
  "findFile e pth = Join (findFileLoop e (Split pth pathSeparator)) pathSeparator"

definition normalizeCoveredPath :: "env \<Rightarrow> string \<Rightarrow> string \<Rightarrow> error + (string \<times> string)" where
  "normalizeCoveredPath e pth workingDirectory =
     (let modulePrefixSize = 3;
          separator = pathSeparator;
          parts = SplitN pth separator (modulePrefixSize + 1);
          goPath = (case GOPATH e of None \<Rightarrow> [] | Some g \<Rightarrow> g);
          hasGoPath = (GOPATH e \<noteq> None);
          goPrefixedPath = joinPath [goPath, ''src'', pth];
          inGoPath = (hasGoPath \<and> Stat e goPrefixedPath \<noteq> ErrNotExist)
      in if length parts \<le> modulePrefixSize then
           (if inGoPath then Inr (pth, goPrefixedPath) else Inr (pth, pth))
         else
           (let prefix = Join (take modulePrefixSize parts) separator
            in case SplitN pth (prefix @ separator) 2 of
                 [_, rest] \<Rightarrow>
                   (let demodularized = findFile e rest
                    in if \<not> inGoPath then Inr (demodularized, demodularized)
                       else if HasSuffix workingDirectory prefix
                         then Inr (demodularized, goPrefixedPath)
                       else Inr (pth, goPrefixedPath))
               | _ \<Rightarrow> Inl IndexOutOfRange))"

section \<open>The budget reader\<close>

definition configuredUntestedOf :: "string \<Rightarrow> error + (int \<times> int)" where
  "configuredUntestedOf content =
     (let match = FindStringSubmatch perFileIgnore content
      in if length match = 2 then
           (case FindStringIndex perFileIgnore content of
              [] \<Rightarrow> Inl IndexOutOfRange
            | index # _ \<Rightarrow>
                (let linesBeforeMatch = CountNewlines (take index content)
                 in Inr (stringToInt (match ! 1), int linesBeforeMatch + 1)))
         else Inr (0, 0))"

definition configuredUntestedForFile :: "env \<Rightarrow> string \<Rightarrow> error + (int \<times> int)" where
  "configuredUntestedForFile e pth =
     (case readFile e pth of Inl err \<Rightarrow> Inl err | Inr content \<Rightarrow> configuredUntestedOf content)"

section \<open>The reporter\<close>

text \<open>
  What is written to the error stream: the header of a file over its budget with the two
  counts of \<open>details\<close>, a location line, and the warning of a file under its budget with
  the place of the budget comment.
\<close>

datatype diagnostic =
    NewUntested string int int
  | LocationLine string
  | LessUntested string int int string int

text \<open>
  \<open>sort.Slice\<close> with the given \<open>less\<close>, as an insertion sort. Go does not fix the order of
  elements that \<open>less\<close> does not separate.
\<close>

fun insertBy :: "('a \<Rightarrow> 'a \<Rightarrow> bool) \<Rightarrow> 'a \<Rightarrow> 'a list \<Rightarrow> 'a list" where
  "insertBy lessFn x [] = [x]"
| "insertBy lessFn x (y # ys) = (if lessFn y x then y # insertBy lessFn x ys else x # y # ys)"

fun sortSlice :: "('a \<Rightarrow> 'a \<Rightarrow> bool) \<Rightarrow> 'a list \<Rightarrow> 'a list" where
  "sortSlice lessFn [] = []"
| "sortSlice lessFn (x # xs) = insertBy lessFn x (sortSlice lessFn xs)"

definition printUntestedSections ::
    "(Section \<Rightarrow> string) \<Rightarrow> Section list \<Rightarrow> string \<Rightarrow> int \<times> int \<Rightarrow> diagnostic list" where
  "printUntestedSections Location sections displayPath details =
     NewUntested displayPath (fst details) (snd details)
     # map (\<lambda>section. LocationLine (displayPath @ '':'' @ Location section))
           (sortSlice (\<lambda>a b. sortValue a < sortValue b) sections)"

text \<open>
  The body of the closure of \<open>checkCoverage\<close> after the test for a generated file: the
  state is the exit code and the diagnostics written so far.
\<close>

definition compareWithBudget ::
    "env \<Rightarrow> (Section \<Rightarrow> string) \<Rightarrow> string \<Rightarrow> string \<Rightarrow> Section list
     \<Rightarrow> int \<times> diagnostic list \<Rightarrow> error + (int \<times> diagnostic list)" where
  "compareWithBudget e Location wd pth sections st =
     (case normalizeCoveredPath e pth wd of
        Inl err \<Rightarrow> Inl err
      | Inr (displayPath, readPath) \<Rightarrow>
     (case configuredUntestedForFile e readPath of
        Inl err \<Rightarrow> Inl err
      | Inr (configuredUntested, configuredUntestedAtLine) \<Rightarrow>
     (case readFile e readPath of
        Inl err \<Rightarrow> Inl err
      | Inr content \<Rightarrow>
     (case removeSectionsMarkedWithInlineComment sections (Split content [newline]) of
        Inl err \<Rightarrow> Inl err
      | Inr sections' \<Rightarrow>
          (let actualUntested = int (length sections');
               details = (actualUntested, configuredUntested)
           in if actualUntested = configuredUntested then Inr st
              else if actualUntested > configuredUntested then
                Inr (1, snd st @ printUntestedSections Location sections' displayPath details)
              else
                Inr (fst st, snd st @ [LessUntested displayPath actualUntested configuredUntested
                                         readPath configuredUntestedAtLine]))))))"

definition checkPath ::
    "env \<Rightarrow> (Section \<Rightarrow> string) \<Rightarrow> string \<Rightarrow> string \<Rightarrow> Section list
     \<Rightarrow> int \<times> diagnostic list \<Rightarrow> error + (int \<times> diagnostic list)" where
  "checkPath e Location wd pth sections st =
     (if MatchString generatedFile pth then Inr st
      else compareWithBudget e Location wd pth sections st)"

text \<open>
  Modelled from the spec: the helper \<open>iterateBySortedKey\<close> is not part of main.go; the
  groups are visited in the sorted order of their keys. A panic of the callback ends the
  iteration.
\<close>

fun iterateLoop ::
    "(string \<Rightarrow> Section list \<Rightarrow> 's \<Rightarrow> error + 's) \<Rightarrow> (string \<times> Section list) list \<Rightarrow> 's \<Rightarrow> error + 's" where
  "iterateLoop fn [] st = Inr st"
| "iterateLoop fn ((k, v) # kvs) st =
     (case fn k v st of Inl err \<Rightarrow> Inl err | Inr st' \<Rightarrow> iterateLoop fn kvs st')"

definition iterateBySortedKey ::
    "(string \<times> Section list) list \<Rightarrow> (string \<Rightarrow> Section list \<Rightarrow> 's \<Rightarrow> error + 's) \<Rightarrow> 's \<Rightarrow> error + 's" where
  "iterateBySortedKey grouped fn st = iterateLoop fn (sort_key fst grouped) st"

definition checkCoverage ::
    "env \<Rightarrow> (string \<Rightarrow> Section) \<Rightarrow> (Section \<Rightarrow> string) \<Rightarrow> string
     \<Rightarrow> error + (int \<times> diagnostic list)" where
  "checkCoverage e NewSection Location coverageFilePath =
     (case untestedSections e NewSection coverageFilePath of
        Inl err \<Rightarrow> Inl err
      | Inr untested \<Rightarrow>
          (let sectionsByPath = groupSectionsByPath untested
           in case Getwd e of
                None \<Rightarrow> Inl GetwdError
              | Some wd \<Rightarrow>
                  iterateBySortedKey sectionsByPath (checkPath e Location wd) (0, [])))"

section \<open>Notions of the specification\<close>

text \<open>The location lines of a file, one per region, in the order of the list.\<close>

definition locationLines :: "(Section \<Rightarrow> string) \<Rightarrow> string \<Rightarrow> Section list \<Rightarrow> diagnostic list" where
  "locationLines Location displayPath ys =
     map (\<lambda>section. LocationLine (displayPath @ '':'' @ Location section)) ys"

section \<open>The suppression markers, in the words of the specification\<close>

text \<open>
  The phrase \<open>untested section\<close> stands here, followed by white space, a comma or the end
  of the text.
\<close>

definition phraseHere :: "string \<Rightarrow> bool" where
  "phraseHere s =
     (HasPrefix s ''untested section'' \<and>
      (case drop 16 s of [] \<Rightarrow> True | c # _ \<Rightarrow> c \<in> set spaceClass \<or> c = CHR '',''))"

text \<open>The phrase stands here or further on in the same line.\<close>

fun phraseAhead :: "string \<Rightarrow> bool" where
  "phraseAhead [] = phraseHere []"
| "phraseAhead (c # cs) = (phraseHere (c # cs) \<or> (c \<noteq> newline \<and> phraseAhead cs))"

text \<open>A line comment starts here and contains the phrase.\<close>

definition commentHere :: "string \<Rightarrow> bool" where
  "commentHere s = (HasPrefix s ''//'' \<and> phraseAhead (drop 2 s))"

text \<open>The inline marker: somewhere in the text a line comment contains the phrase.\<close>

fun inlineMarker :: "string \<Rightarrow> bool" where
  "inlineMarker [] = False"
| "inlineMarker (c # cs) = (commentHere (c # cs) \<or> inlineMarker cs)"

text \<open>The marker alone on its line: after leading white space the line is such a comment.\<close>

definition markerLine :: "string \<Rightarrow> bool" where
  "markerLine s = commentHere (dropWhile (\<lambda>c. c \<in> set spaceClass) s)"

text \<open>
  A region is suppressed by a marker on one of its lines, or by a marker alone on the line
  before its first line. Line \<open>l\<close> of the file is \<open>lines ! (l - 1)\<close>.
\<close>

definition suppressed :: "string list \<Rightarrow> Section \<Rightarrow> bool" where
  "suppressed lines s =
     ((\<exists>l \<in> {startLine s..endLine s}. inlineMarker (lines ! nat (l - 1))) \<or>
      (2 \<le> startLine s \<and> markerLine (lines ! nat (startLine s - 2))))"

text \<open>The lines of the file cover the region.\<close>

definition inRange :: "string list \<Rightarrow> Section \<Rightarrow> bool" where
  "inRange lines s = (1 \<le> startLine s \<and> startLine s \<le> endLine s \<and> endLine s \<le> int (length lines))"

section \<open>Notions of the proofs\<close>

text \<open>A regular expression that consumes one byte with the property \<open>P\<close>.\<close>

definition charRe :: "re \<Rightarrow> (char \<Rightarrow> bool) \<Rightarrow> bool" where
  "charRe x P = (\<forall>st. rmatch x st = stepChar P st)"

text \<open>What one pass of the inner loop tests at line \<open>k\<close>.\<close>

definition ignoredLine :: "string list \<Rightarrow> int \<Rightarrow> bool" where
  "ignoredLine lines k =
     (inlineMarker (lines ! nat (k - 1)) \<or> (2 \<le> k \<and> markerLine (lines ! nat (k - 2))))"

text \<open>Every line that carries a marker in \<open>ls\<close> carries one of the same kind in \<open>ls'\<close>.\<close>

definition markersKept :: "string list \<Rightarrow> string list \<Rightarrow> bool" where
  "markersKept ls ls' =
     (length ls' = length ls \<and>
      (\<forall>i < length ls. (inlineMarker (ls ! i) \<longrightarrow> inlineMarker (ls' ! i)) \<and>
                         (markerLine (ls ! i) \<longrightarrow> markerLine (ls' ! i))))"

text \<open>The captures of the first match that starts in a state, in backtracking order.\<close>

definition firstCaps :: "re \<Rightarrow> bool \<Rightarrow> string \<Rightarrow> string list \<Rightarrow> string list option" where
  "firstCaps r b s caps =
     (case rmatch r (b, s, caps) of [] \<Rightarrow> None | (b', s', caps') # _ \<Rightarrow> Some caps')"


section \<open>The profile, the budget and the generated files, in the words of the specification\<close>

text \<open>
  The hit count of a record is its last field; the fields of a record are separated by
  single spaces. The count is zero when the record has a field before it and the last
  field is exactly \<open>0\<close>.
\<close>

definition hitCountIsZero :: "string \<Rightarrow> bool" where
  "hitCountIsZero line =
     (let fields = Split line '' '' in 2 \<le> length fields \<and> last fields = ''0'')"

text \<open>The last of the tokens of a line that white space separates.\<close>

definition trailingToken :: "string \<Rightarrow> string" where
  "trailingToken line =
     rev (takeWhile (\<lambda>c. c \<notin> set spaceClass) (dropWhile (\<lambda>c. c \<in> set spaceClass) (rev line)))"

text \<open>
  A budget comment starts here: \<open>//\<close>, spaces, \<open>untested sections:\<close>, spaces and a
  number; the result is the longest run of digits.
\<close>

definition budgetHere :: "string \<Rightarrow> string option" where
  "budgetHere s =
     (if HasPrefix s ''//'' then
        (let r = dropWhile (\<lambda>c. c = CHR '' '') (drop 2 s)
         in if HasPrefix r ''untested sections:'' then
              (let digits = takeWhile (\<lambda>c. c \<in> set digitClass)
                              (dropWhile (\<lambda>c. c = CHR '' '') (drop 18 r))
               in if digits = [] then None else Some digits)
            else None)
      else None)"

text \<open>The first budget comment of the text, with the number of newlines before it.\<close>

fun budgetScan :: "string \<Rightarrow> nat \<Rightarrow> (string \<times> nat) option" where
  "budgetScan [] n = None"
| "budgetScan (c # cs) n =
     (case budgetHere (c # cs) of
        Some digits \<Rightarrow> Some (digits, n)
      | None \<Rightarrow> budgetScan cs (if c = newline then Suc n else n))"

text \<open>The budget and its line, counted from 1; \<open>(0, 0)\<close> without a budget comment.\<close>

definition configuredBudget :: "string \<Rightarrow> int \<times> int" where
  "configuredBudget content =
     (case budgetScan content 0 of
        None \<Rightarrow> (0, 0)
      | Some (digits, n) \<Rightarrow> (stringToInt digits, int n + 1))"

text \<open>
  The name of a generated file: \<open>generated\<close>, then anything but a newline, then \<open>.go\<close>
  at the end.
\<close>

fun dotGoAhead :: "string \<Rightarrow> bool" where
  "dotGoAhead [] = False"
| "dotGoAhead (c # cs) = (c # cs = ''.go'' \<or> (c \<noteq> newline \<and> dotGoAhead cs))"

definition generatedHere :: "string \<Rightarrow> bool" where
  "generatedHere s = (HasPrefix s ''generated'' \<and> dotGoAhead (drop 9 s))"

fun generatedName :: "string \<Rightarrow> bool" where
  "generatedName [] = False"
| "generatedName (c # cs) = (generatedHere (c # cs) \<or> generatedName cs)"

text \<open>The regions of the profile that belong to a file.\<close>

definition regionsOf :: "Section list \<Rightarrow> string \<Rightarrow> Section list" where
  "regionsOf sections pth = filter (\<lambda>s. path s = pth) sections"

text \<open>
  The regions left after suppression: those that the lines of the file cover and that no
  marker suppresses.
\<close>

definition survivors :: "string list \<Rightarrow> Section list \<Rightarrow> Section list" where
  "survivors lines sections = filter (\<lambda>s. inRange lines s \<and> \<not> suppressed lines s) sections"

text \<open>
  The file has more regions left after suppression than its budget allows; the file is
  read at the path that the resolver gives.
\<close>

definition exceedsBudget :: "env \<Rightarrow> string \<Rightarrow> string \<Rightarrow> Section list \<Rightarrow> bool" where
  "exceedsBudget e wd pth sections =
     (case normalizeCoveredPath e pth wd of
        Inl err \<Rightarrow> False
      | Inr (displayPath, readPath) \<Rightarrow>
          (case files e readPath of
             None \<Rightarrow> False
           | Some content \<Rightarrow>
               fst (configuredBudget content)
                 < int (length (survivors (Split content [newline]) sections))))"

section \<open>Example data\<close>

definition secA :: Section where
  "secA = \<lparr>path = ''a.go'', startLine = 7, endLine = 9, sortValue = 700002\<rparr>"

definition secB :: Section where
  "secB = \<lparr>path = ''a.go'', startLine = 3, endLine = 3, sortValue = 300005\<rparr>"

definition secTop :: Section where
  "secTop = \<lparr>path = ''a.go'', startLine = 1, endLine = 2, sortValue = 100001\<rparr>"

definition exLines :: "string list" where
  "exLines = [''package a'', ''  // untested section'', ''x := 1'', '''', ''func f() {'',
              '''', ''a()'', ''b()'', ''}'']"

definition exMarker :: string where
  "exMarker = '' // untested section''"

definition secC :: Section where
  "secC = \<lparr>path = ''b.go'', startLine = 1, endLine = 2, sortValue = 100001\<rparr>"

definition exProfile :: string where
  "exProfile = ''mode: set'' @ [newline] @ ''a.go:7.2,9.3 2 0'' @ [newline]
               @ ''a.go:3.1,3.9 1 10'' @ [newline] @ ''b.go:1.1,2.2 1 0'' @ [newline]"

text \<open>The same record after a tab, and a profile with the line ends of Windows.\<close>

definition exProfileTab :: string where
  "exProfileTab = ''mode: set'' @ [newline] @ ''a.go:7.2,9.3 2'' @ [CHR 0x09] @ ''0'' @ [newline]"

definition exProfileCR :: string where
  "exProfileCR = ''mode: set'' @ [CHR 0x0D, newline] @ ''a.go:7.2,9.3 2 0'' @ [CHR 0x0D, newline]"

text \<open>A constructor and a printer of regions for the examples.\<close>

definition exNewSection :: "string \<Rightarrow> Section" where
  "exNewSection raw =
     (let p = takeWhile (\<lambda>c. c \<noteq> CHR '':'') raw;
          r1 = drop 1 (dropWhile (\<lambda>c. c \<noteq> CHR '':'') raw);
          sl = takeWhile (\<lambda>c. c \<noteq> CHR ''.'') r1;
          r2 = drop 1 (dropWhile (\<lambda>c. c \<noteq> CHR ''.'') r1);
          sc = takeWhile (\<lambda>c. c \<noteq> CHR '','') r2;
          r3 = drop 1 (dropWhile (\<lambda>c. c \<noteq> CHR '','') r2);
          el = takeWhile (\<lambda>c. c \<noteq> CHR ''.'') r3
      in \<lparr>path = p, startLine = stringToInt sl, endLine = stringToInt el,
          sortValue = stringToInt sl * 100000 + stringToInt sc\<rparr>)"

definition exLocation :: "Section \<Rightarrow> string" where
  "exLocation s = (if s = secA then ''7.2,9.3'' else ''1.1,2.2'')"

definition exSourceA :: string where
  "exSourceA = Join exLines [newline]"

definition exSourceB :: string where
  "exSourceB = ''// untested sections: 1'' @ [newline] @ ''func g() {}'' @ [newline]"

definition exWd :: string where
  "exWd = ''/home/dev/proj''"

definition exEnv :: env where
  "exEnv = \<lparr>files = map_of [(''coverage.out'', exProfile), (''a.go'', exSourceA),
                            (''b.go'', exSourceB)],
            Stat = (\<lambda>p. if p \<in> set [''a.go'', ''b.go'', ''sub/a.go'', ''/go/src/b.go'',
                                      ''/go/src/github.com/u/lib/sub/a.go'']
                         then StatOk else ErrNotExist),
            GOPATH = None,
            Getwd = Some exWd\<rparr>"


definition exGenerated :: string where
  "exGenerated = ''pkg/zz_generated.deepcopy.go''"



text \<open>A profile whose only record without coverage lies under a marker.\<close>

definition secD :: Section where
  "secD = \<lparr>path = ''a.go'', startLine = 3, endLine = 3, sortValue = 300001\<rparr>"

definition exProfileMarked :: string where
  "exProfileMarked = ''mode: set'' @ [newline] @ ''a.go:3.1,3.9 1 0'' @ [newline]"

definition exEnvMarked :: env where
  "exEnvMarked = exEnv\<lparr>files := (files exEnv)(''coverage.out'' \<mapsto> exProfileMarked)\<rparr>"

section \<open>Properties of the string functions\<close>

lemma Cut_Some_eq: "Cut sep s = Some (a, b) \<Longrightarrow> s = a @ sep @ b"
proof (induction s arbitrary: a)
  case Nil
  then show ?case by (simp split: if_splits)
next
  case (Cons c cs)
  show ?case
  proof (cases "HasPrefix (c # cs) sep")
    case True
    with Cons.prems have "a = []" "b = drop (length sep) (c # cs)" by simp_all
    moreover from True have "take (length sep) (c # cs) = sep" by (simp add: HasPrefix_def)
    ultimately show ?thesis by (metis append_Nil append_take_drop_id)
  next
    case False
    with Cons.prems obtain a' where "Cut sep cs = Some (a', b)" "a = c # a'"
      by (auto split: option.splits)
    with Cons.IH show ?thesis by simp
  qed
qed

lemma Cut_shorter: "sep \<noteq> [] \<Longrightarrow> Cut sep s = Some (a, b) \<Longrightarrow> length b < length s"
  by (drule Cut_Some_eq) simp


lemma Cut_char_None: "Cut [c] s = None \<longleftrightarrow> c \<notin> set s"
  by (induction s) (auto simp: HasPrefix_def split: option.splits)

lemma Cut_char_Some: "c \<notin> set a \<Longrightarrow> Cut [c] (a @ c # b) = Some (a, b)"
  by (induction a) (auto simp: HasPrefix_def)

lemma Cut_char_notin: "Cut [c] s = Some (a, b) \<Longrightarrow> c \<notin> set a"
  by (induction s arbitrary: a) (auto simp: HasPrefix_def split: option.splits if_splits)


lemma SplitN_fuel:
  "sep \<noteq> [] \<Longrightarrow> length s < n \<Longrightarrow> length s < m \<Longrightarrow> SplitN s sep n = SplitN s sep m"
proof (induction n arbitrary: s m)
  case 0
  then show ?case by simp
next
  case (Suc n)
  show ?case
  proof (cases "Cut sep s")
    case None
    have "SplitN s sep (Suc n) = [s]" using None by (cases n) simp_all
    moreover obtain m' where "m = Suc m'" using Suc.prems(3) by (cases m) auto
    then have "SplitN s sep m = [s]" using None by (cases m') simp_all
    ultimately show ?thesis by simp
  next
    case (Some ab)
    obtain a b where ab: "ab = (a, b)" by (cases ab)
    from Some ab Suc.prems(1) have len: "length b < length s" by (auto dest: Cut_shorter)
    from len Suc.prems(2) obtain n' where n: "n = Suc n'" by (cases n) auto
    from len Suc.prems(3) obtain m' where m: "m = Suc (Suc m')" by (cases m; cases "m - 1") auto
    have "SplitN b sep n = SplitN b sep (Suc m')"
      using len Suc.prems m by (intro Suc.IH) auto
    then show ?thesis using Some ab n m by simp
  qed
qed

lemma Split_unfold:
  "sep \<noteq> [] \<Longrightarrow> Split s sep = (case Cut sep s of None \<Rightarrow> [s] | Some (a, b) \<Rightarrow> a # Split b sep)"
proof (cases "Cut sep s")
  case None
  then show ?thesis by (cases s) (simp_all add: Split_def)
next
  case (Some ab)
  assume sep: "sep \<noteq> []"
  obtain a b where ab: "ab = (a, b)" by (cases ab)
  with Some sep have len: "length b < length s" by (auto dest: Cut_shorter)
  then obtain k where k: "length s = Suc k" by (cases s) auto
  have "SplitN b sep (Suc k) = SplitN b sep (Suc (length b))"
    using len k sep by (intro SplitN_fuel) auto
  with Some ab k show ?thesis by (simp add: Split_def)
qed

lemma HasSuffix_iff: "HasSuffix s p \<longleftrightarrow> (\<exists>a. s = a @ p)"
proof
  assume "HasSuffix s p"
  then have "s = take (length s - length p) s @ p"
    unfolding HasSuffix_def by (metis append_take_drop_id)
  then show "\<exists>a. s = a @ p" ..
next
  assume "\<exists>a. s = a @ p"
  then show "HasSuffix s p" by (auto simp: HasSuffix_def)
qed

lemma Split_not_Nil: "sep \<noteq> [] \<Longrightarrow> Split s sep \<noteq> []"
  by (subst Split_unfold) (auto split: option.splits)

lemma Split_char_length: "2 \<le> length (Split s [c]) \<longleftrightarrow> c \<in> set s"
proof (cases "Cut [c] s")
  case None
  then show ?thesis using Cut_char_None [of c s] by (subst Split_unfold) simp_all
next
  case (Some ab)
  obtain a b where "ab = (a, b)" by (cases ab)
  with Some have "c \<in> set s" using Cut_char_None [of c s] by auto
  moreover have "Split b [c] \<noteq> []" by (rule Split_not_Nil) simp
  then have "1 \<le> length (Split b [c])" by (cases "Split b [c]") simp_all
  ultimately show ?thesis using Some \<open>ab = (a, b)\<close> by (subst Split_unfold) simp_all
qed

lemma Split_char_last: "last (Split s [c]) = rev (takeWhile (\<lambda>x. x \<noteq> c) (rev s))"
proof (induction "length s" arbitrary: s rule: less_induct)
  case less
  show ?case
  proof (cases "Cut [c] s")
    case None
    then have "c \<notin> set s" using Cut_char_None by blast
    then have tw: "takeWhile (\<lambda>x. x \<noteq> c) (rev s) = rev s"
      by (intro takeWhile_eq_all_conv [THEN iffD2]) auto
    show ?thesis using None by (subst Split_unfold) (simp_all add: tw)
  next
    case (Some ab)
    obtain a b where ab: "ab = (a, b)" by (cases ab)
    with Some have s: "s = a @ [c] @ b" by (auto dest: Cut_Some_eq)
    then have "length b < length s" by simp
    then have IH: "last (Split b [c]) = rev (takeWhile (\<lambda>x. x \<noteq> c) (rev b))" by (rule less)
    have ne: "Split b [c] \<noteq> []" by (rule Split_not_Nil) simp
    have rs: "rev s = rev b @ (c # rev a)" by (simp add: s)
    have "takeWhile (\<lambda>x. x \<noteq> c) (rev s) = takeWhile (\<lambda>x. x \<noteq> c) (rev b)"
    proof (cases "\<forall>x \<in> set (rev b). x \<noteq> c")
      case True
      then have A: "takeWhile (\<lambda>x. x \<noteq> c) (rev b @ (c # rev a))
          = rev b @ takeWhile (\<lambda>x. x \<noteq> c) (c # rev a)"
        by (intro takeWhile_append2) auto
      from True have B: "takeWhile (\<lambda>x. x \<noteq> c) (rev b) = rev b"
        by (intro takeWhile_eq_all_conv [THEN iffD2]) auto
      have C: "takeWhile (\<lambda>x. x \<noteq> c) (c # rev a) = []" by simp
      show ?thesis unfolding rs A B C by simp
    next
      case False
      then obtain x where "x \<in> set (rev b)" "\<not> x \<noteq> c" by blast
      then show ?thesis unfolding rs by (rule takeWhile_append1)
    qed
    with IH ne Some ab show ?thesis by (subst Split_unfold) simp_all
  qed
qed

lemma suffix_two_iff:
  assumes "z \<noteq> c"
  shows "(\<exists>a. s = a @ [c, z]) \<longleftrightarrow> c \<in> set s \<and> rev (takeWhile (\<lambda>x. x \<noteq> c) (rev s)) = [z]"
proof
  assume "\<exists>a. s = a @ [c, z]"
  then obtain a where "s = a @ [c, z]" ..
  then show "c \<in> set s \<and> rev (takeWhile (\<lambda>x. x \<noteq> c) (rev s)) = [z]"
    using assms by simp
next
  let ?P = "\<lambda>x. x \<noteq> c"
  assume r: "c \<in> set s \<and> rev (takeWhile ?P (rev s)) = [z]"
  then have t: "takeWhile ?P (rev s) = [z]" by (metis rev_singleton_conv)
  from r have "dropWhile ?P (rev s) \<noteq> []" by simp
  then obtain d ds where d: "dropWhile ?P (rev s) = d # ds" by (cases "dropWhile ?P (rev s)") auto
  then have "\<not> ?P d" using hd_dropWhile [of ?P "rev s"] by (metis list.sel(1) list.simps(3))
  then have "d = c" by simp
  have "rev s = takeWhile ?P (rev s) @ dropWhile ?P (rev s)" by simp
  then have "rev s = z # c # ds" using t d \<open>d = c\<close> by simp
  then have "s = rev ds @ [c, z]" by (metis rev_rev_ident rev.simps(2) append.assoc append_Cons append_Nil)
  then show "\<exists>a. s = a @ [c, z]" ..
qed

lemma Join_Cons: "xs \<noteq> [] \<Longrightarrow> Join (a # xs) sep = a @ sep @ Join xs sep"
  by (cases xs) simp_all

lemma Join_Split: "sep \<noteq> [] \<Longrightarrow> Join (Split s sep) sep = s"
proof (induction "length s" arbitrary: s rule: less_induct)
  case less
  show ?case
  proof (cases "Cut sep s")
    case None
    with less.prems show ?thesis by (subst Split_unfold) simp_all
  next
    case (Some ab)
    obtain a b where ab: "ab = (a, b)" by (cases ab)
    with Some have s: "s = a @ sep @ b" by (auto dest: Cut_Some_eq)
    with less.prems have "length b < length s" by simp
    then have "Join (Split b sep) sep = b" using less.prems by (rule less.hyps)
    moreover have "Split b sep \<noteq> []" using less.prems by (rule Split_not_Nil)
    ultimately show ?thesis using Some ab s less.prems
      by (subst Split_unfold) (simp_all add: Join_Cons)
  qed
qed


section \<open>The patterns match what the specification describes\<close>

declare rmatch.simps(9) [simp del]

lemma charRe_Chr: "charRe (Chr c) (\<lambda>x. x = c)"
  and charRe_Dot: "charRe Dot (\<lambda>x. x \<noteq> newline)"
  and charRe_Cls: "charRe (Cls cs) (\<lambda>x. x \<in> set cs)"
  by (simp_all add: charRe_def)

lemma rmatch_lit:
  "rmatch (lit w) (b, s, caps) =
     (if HasPrefix s w then [(b \<and> w = [], drop (length w) s, caps)] else [])"
proof (induction w arbitrary: b s)
  case Nil
  then show ?case by (simp add: HasPrefix_def)
next
  case (Cons c w)
  show ?case
  proof (cases s)
    case Nil
    then show ?thesis by (simp add: HasPrefix_def)
  next
    case (Cons d s')
    then show ?thesis using Cons.IH [of False s'] by (auto simp: HasPrefix_def)
  qed
qed

lemma rmatch_Seq_lit:
  "rmatch (Seq (lit w) r) (b, s, caps) =
     (if HasPrefix s w then rmatch r (b \<and> w = [], drop (length w) s, caps) else [])"
  by (simp add: rmatch_lit)

lemma rmatch_Star_Nil:
  assumes "charRe x P"
  shows "rmatch (Star x) (b, [], caps) = [(b, [], caps)]"
  using assms by (simp add: charRe_def rmatch.simps(9))

lemma rmatch_Star_Cons:
  assumes "charRe x P"
  shows "rmatch (Star x) (b, c # cs, caps) =
     (if P c then rmatch (Star x) (False, cs, caps) @ [(b, c # cs, caps)]
      else [(b, c # cs, caps)])"
  using assms by (simp add: charRe_def rmatch.simps(9))

lemma rmatch_Seq_Star_Nil:
  assumes "charRe x P"
  shows "rmatch (Seq (Star x) r) (b, [], caps) = rmatch r (b, [], caps)"
  by (simp add: rmatch_Star_Nil [OF assms])

lemma rmatch_Seq_Star_Cons:
  assumes "charRe x P"
  shows "rmatch (Seq (Star x) r) (b, c # cs, caps) =
     (if P c then rmatch (Seq (Star x) r) (False, cs, caps) @ rmatch r (b, c # cs, caps)
      else rmatch r (b, c # cs, caps))"
  by (simp add: rmatch_Star_Cons [OF assms])

lemma rmatch_tail_iff:
  "rmatch (Grp (Alt (Cls spaceClass) (Alt (Chr CHR '','') Eol))) (b, s, caps) \<noteq> [] \<longleftrightarrow>
   (case s of [] \<Rightarrow> True | c # _ \<Rightarrow> c \<in> set spaceClass \<or> c = CHR '','')"
  by (cases s) auto

lemma rmatch_phrase_iff:
  "rmatch (Seq (lit ''untested section'')
       (Grp (Alt (Cls spaceClass) (Alt (Chr CHR '','') Eol)))) (b, s, caps) \<noteq> [] \<longleftrightarrow> phraseHere s"
proof -
  have len: "length ''untested section'' = 16" by simp
  show ?thesis
    unfolding rmatch_Seq_lit len phraseHere_def using rmatch_tail_iff
    by (simp del: rmatch.simps)
qed

lemma rmatch_ahead_iff:
  "rmatch (Seq (Star Dot) (Seq (lit ''untested section'')
       (Grp (Alt (Cls spaceClass) (Alt (Chr CHR '','') Eol))))) (b, s, caps) \<noteq> [] \<longleftrightarrow> phraseAhead s"
proof (induction s arbitrary: b)
  case Nil
  show ?case
    unfolding rmatch_Seq_Star_Nil [OF charRe_Dot] rmatch_phrase_iff by simp
next
  case (Cons c cs)
  show ?case
    unfolding rmatch_Seq_Star_Cons [OF charRe_Dot] using Cons.IH rmatch_phrase_iff
    by (auto simp del: rmatch.simps lit.simps)
qed

lemma rmatch_inlineIgnore_iff:
  "rmatch inlineIgnore (b, s, caps) \<noteq> [] \<longleftrightarrow> commentHere s"
proof -
  have len: "length ''//'' = 2" by simp
  show ?thesis
    unfolding inlineIgnore_def rmatch_Seq_lit len commentHere_def using rmatch_ahead_iff
    by (simp del: rmatch.simps lit.simps)
qed

lemma list_ex_starts_inline:
  "list_ex (\<lambda>st. rmatch inlineIgnore st \<noteq> []) (starts b s) \<longleftrightarrow> inlineMarker s"
proof (induction s arbitrary: b)
  case Nil
  have "\<not> commentHere []" by (simp add: commentHere_def HasPrefix_def)
  then show ?case using rmatch_inlineIgnore_iff [of b "[]" "[]"] by simp
next
  case (Cons c cs)
  then show ?case using rmatch_inlineIgnore_iff [of b "c # cs" "[]"] by simp
qed

lemma MatchString_anyInlineIgnore: "MatchString anyInlineIgnore s \<longleftrightarrow> inlineMarker s"
  by (simp add: MatchString_def anyInlineIgnore_def list_ex_starts_inline)

lemma commentHere_not_space: "c \<in> set spaceClass \<Longrightarrow> \<not> commentHere (c # cs)"
  by (auto simp: commentHere_def HasPrefix_def spaceClass_def)

lemma rmatch_spaces_inline_iff:
  "rmatch (Seq (Star (Cls spaceClass)) inlineIgnore) (b, s, caps) \<noteq> [] \<longleftrightarrow>
   commentHere (dropWhile (\<lambda>c. c \<in> set spaceClass) s)"
proof (induction s arbitrary: b)
  case Nil
  show ?case
    unfolding rmatch_Seq_Star_Nil [OF charRe_Cls] rmatch_inlineIgnore_iff by simp
next
  case (Cons c cs)
  show ?case
    unfolding rmatch_Seq_Star_Cons [OF charRe_Cls]
    using Cons.IH rmatch_inlineIgnore_iff commentHere_not_space
    by (simp del: rmatch.simps)
qed

lemma starts_False: "st \<in> set (starts False s) \<Longrightarrow> \<not> fst st"
  by (induction s) auto

lemma rmatch_Seq_Bol_False: "\<not> fst st \<Longrightarrow> rmatch (Seq Bol r) st = []"
  by (cases st) simp

lemma list_ex_starts_Bol:
  "list_ex (\<lambda>st. rmatch (Seq Bol r) st \<noteq> []) (starts True s) \<longleftrightarrow> rmatch r (True, s, []) \<noteq> []"
proof -
  have "\<not> list_ex (\<lambda>st. rmatch (Seq Bol r) st \<noteq> []) (starts False t)" for t
    using starts_False rmatch_Seq_Bol_False by (auto simp: list_ex_iff simp del: rmatch.simps)
  then show ?thesis by (cases s) simp_all
qed

lemma MatchString_startsWithInlineIgnore:
  "MatchString startsWithInlineIgnore s \<longleftrightarrow> markerLine s"
  unfolding MatchString_def startsWithInlineIgnore_def list_ex_starts_Bol
    rmatch_spaces_inline_iff markerLine_def ..

lemma inlineMarker_dropWhile: "inlineMarker (dropWhile P s) \<Longrightarrow> inlineMarker s"
  by (induction s) (auto split: if_splits)

lemma commentHere_inlineMarker: "commentHere s \<Longrightarrow> inlineMarker s"
  by (cases s) (simp_all add: commentHere_def HasPrefix_def)

lemma markerLine_inlineMarker: "markerLine s \<Longrightarrow> inlineMarker s"
  unfolding markerLine_def by (rule inlineMarker_dropWhile, rule commentHere_inlineMarker)

section \<open>The filter drops exactly the marked regions\<close>

declare scanSection.simps [simp del]

declare scanReads.simps [simp del]

lemma ignoredAt_inside:
  "1 \<le> l \<Longrightarrow> l \<le> int (length lines) \<Longrightarrow> ignoredAt lines l = Inr (ignoredLine lines l)"
  by (auto simp: ignoredAt_def lineAt_def ignoredLine_def MatchString_anyInlineIgnore
      MatchString_startsWithInlineIgnore)

lemma scanSection_past: "endLine s < l \<Longrightarrow> scanSection lines s l acc = Inr acc"
  by (subst scanSection.simps) simp

lemma scanSection_inside:
  assumes "1 \<le> l" "l \<le> endLine s" "endLine s \<le> int (length lines)"
  shows "scanSection lines s l acc =
     Inr (if \<exists>k \<in> {l..endLine s}. ignoredLine lines k then acc else acc @ [s])"
  using assms
proof (induction "nat (endLine s - l)" arbitrary: l)
  case 0
  then have l: "l = endLine s" by simp
  have "ignoredAt lines l = Inr (ignoredLine lines l)"
    using "0.prems" by (intro ignoredAt_inside) auto
  then show ?case
    using l by (subst scanSection.simps) (auto simp: scanSection_past split: bool.splits)
next
  case (Suc n)
  then have lt: "l < endLine s" by simp
  have ig: "ignoredAt lines l = Inr (ignoredLine lines l)"
    using Suc.prems by (intro ignoredAt_inside) auto
  have split: "{l..endLine s} = insert l {l + 1..endLine s}"
    using lt by auto
  have IH: "scanSection lines s (l + 1) acc =
     Inr (if \<exists>k \<in> {l + 1..endLine s}. ignoredLine lines k then acc else acc @ [s])"
    using Suc.hyps(2) Suc.prems lt by (intro Suc.hyps(1)) auto
  show ?case
    using lt ig IH by (subst scanSection.simps) (auto simp: split split: bool.splits)
qed

lemma ignoredLine_range:
  assumes "l \<le> e"
  shows "(\<exists>k \<in> {l..e}. ignoredLine lines k) \<longleftrightarrow>
     ((\<exists>k \<in> {l..e}. inlineMarker (lines ! nat (k - 1))) \<or> (2 \<le> l \<and> markerLine (lines ! nat (l - 2))))"
proof
  assume "\<exists>k \<in> {l..e}. ignoredLine lines k"
  then obtain k where k: "l \<le> k" "k \<le> e" "ignoredLine lines k" by auto
  show "(\<exists>k \<in> {l..e}. inlineMarker (lines ! nat (k - 1))) \<or> (2 \<le> l \<and> markerLine (lines ! nat (l - 2)))"
  proof (cases "inlineMarker (lines ! nat (k - 1))")
    case True
    with k show ?thesis by auto
  next
    case False
    with k have m: "2 \<le> k" "markerLine (lines ! nat (k - 2))" by (auto simp: ignoredLine_def)
    show ?thesis
    proof (cases "k = l")
      case True
      with m show ?thesis by simp
    next
      case False
      with k have "l \<le> k - 1" "k - 1 \<le> e" by auto
      moreover have "inlineMarker (lines ! nat (k - 1 - 1))"
        using m(2) by (auto dest: markerLine_inlineMarker simp: algebra_simps)
      ultimately show ?thesis by (intro disjI1 bexI [of _ "k - 1"]) auto
    qed
  qed
next
  assume "(\<exists>k \<in> {l..e}. inlineMarker (lines ! nat (k - 1))) \<or> (2 \<le> l \<and> markerLine (lines ! nat (l - 2)))"
  then show "\<exists>k \<in> {l..e}. ignoredLine lines k"
    using assms by (auto simp: ignoredLine_def)
qed

lemma scanSection_suppressed:
  assumes "inRange lines s"
  shows "scanSection lines s (startLine s) acc = Inr (if suppressed lines s then acc else acc @ [s])"
proof -
  from assms have r: "1 \<le> startLine s" "startLine s \<le> endLine s" "endLine s \<le> int (length lines)"
    by (simp_all add: inRange_def)
  show ?thesis
    unfolding scanSection_inside [OF r] ignoredLine_range [OF r(2)] suppressed_def ..
qed

lemma removeLoop_suppressed:
  assumes "\<forall>s \<in> set sections. inRange lines s"
  shows "removeLoop lines sections acc = Inr (acc @ filter (\<lambda>s. \<not> suppressed lines s) sections)"
  using assms by (induction sections arbitrary: acc) (simp_all add: scanSection_suppressed)

text \<open>
  C3: when the lines of the file cover every region of the list, the filter drops exactly
  the regions that are suppressed, by a marker on one of the lines of the region or by a
  marker alone on the line before the region, and keeps the others in their order.
\<close>

theorem inline_filter_drops_exactly_marked:
  assumes "\<forall>s \<in> set sections. inRange lines s"
  shows "removeSectionsMarkedWithInlineComment sections lines
           = Inr (filter (\<lambda>s. \<not> suppressed lines s) sections)"
  using removeLoop_suppressed [OF assms, of "[]"]
  by (simp add: removeSectionsMarkedWithInlineComment_def)

theorem inline_filter_drops_exactly_marked_witness:
  "inRange exLines secB \<and> inRange exLines secA \<and>
   suppressed exLines secB \<and> \<not> suppressed exLines secA \<and>
   removeSectionsMarkedWithInlineComment [secB, secA] exLines = Inr [secA]"
proof -
  have r: "\<forall>s \<in> set [secB, secA]. inRange exLines s" by code_simp
  have s: "suppressed exLines secB \<and> \<not> suppressed exLines secA" by code_simp
  from inline_filter_drops_exactly_marked [OF r] s r show ?thesis by simp
qed

subsection \<open>Reads stay in bounds\<close>

lemma scanReads_bounds:
  assumes "1 \<le> l"
  shows "\<forall>i \<in> set (scanReads ls s l). 0 \<le> i \<and> l - 2 \<le> i \<and> i \<le> endLine s - 1"
  using assms
proof (induction ls s l rule: scanReads.induct)
  case (1 ls sec lineNumber)
  show ?case
  proof (cases "lineNumber \<le> endLine sec")
    case False
    then show ?thesis by (subst scanReads.simps) simp
  next
    case le: True
    show ?thesis
    proof (cases "lineAt ls (lineNumber - 1)")
      case (Inl err)
      then show ?thesis using le "1.prems" by (subst scanReads.simps) simp
    next
      case (Inr current)
      show ?thesis
      proof (cases "MatchString anyInlineIgnore current")
        case True
        then show ?thesis using le Inr "1.prems" by (subst scanReads.simps) simp
      next
        case no: False
        show ?thesis
        proof (cases "2 \<le> lineNumber")
          case False
          then have "\<forall>i \<in> set (scanReads ls sec (lineNumber + 1)).
              0 \<le> i \<and> lineNumber + 1 - 2 \<le> i \<and> i \<le> endLine sec - 1"
            using le Inr no "1.prems" by (intro "1.IH"(2)) auto
          then show ?thesis
            using le Inr no False "1.prems" by (subst scanReads.simps) auto
        next
          case two: True
          show ?thesis
          proof (cases "lineAt ls (lineNumber - 2)")
            case (Inl err)
            then show ?thesis using le Inr no two by (subst scanReads.simps) simp
          next
            case prev: (Inr previous)
            show ?thesis
            proof (cases "MatchString startsWithInlineIgnore previous")
              case True
              then show ?thesis using le Inr no two prev by (subst scanReads.simps) simp
            next
              case False
              then have "\<forall>i \<in> set (scanReads ls sec (lineNumber + 1)).
                  0 \<le> i \<and> lineNumber + 1 - 2 \<le> i \<and> i \<le> endLine sec - 1"
                using le Inr no two prev "1.prems" by (intro "1.IH"(1)) auto
              then show ?thesis
                using le Inr no two prev False by (subst scanReads.simps) auto
            qed
          qed
        qed
      qed
    qed
  qed
qed

lemma lineAt_Inl_iff: "(\<exists>err. lineAt ls i = Inl err) \<longleftrightarrow> \<not> (0 \<le> i \<and> i < int (length ls))"
  by (simp add: lineAt_def)

lemma scanSection_panics_iff:
  "(\<exists>err. scanSection ls s l acc = Inl err) \<longleftrightarrow>
   (\<exists>i \<in> set (scanReads ls s l). \<not> (0 \<le> i \<and> i < int (length ls)))"
proof (induction ls s l arbitrary: acc rule: scanReads.induct)
  case (1 ls sec lineNumber)
  show ?case
  proof (cases "lineNumber \<le> endLine sec")
    case False
    then show ?thesis
      by (subst scanSection.simps, subst scanReads.simps) simp
  next
    case le: True
    show ?thesis
    proof (cases "lineAt ls (lineNumber - 1)")
      case (Inl err)
      then have "\<not> (0 \<le> lineNumber - 1 \<and> lineNumber - 1 < int (length ls))"
        using lineAt_Inl_iff by blast
      then show ?thesis using le Inl
        by (subst scanSection.simps, subst scanReads.simps) (simp add: ignoredAt_def)
    next
      case cur: (Inr current)
      then have in1: "0 \<le> lineNumber - 1 \<and> lineNumber - 1 < int (length ls)"
        using lineAt_Inl_iff [of ls "lineNumber - 1"] by auto
      show ?thesis
      proof (cases "MatchString anyInlineIgnore current")
        case True
        then show ?thesis using le cur in1
          by (subst scanSection.simps, subst scanReads.simps) (simp add: ignoredAt_def)
      next
        case no: False
        show ?thesis
        proof (cases "2 \<le> lineNumber")
          case False
          have IH: "(\<exists>err. scanSection ls sec (lineNumber + 1) acc' = Inl err) \<longleftrightarrow>
             (\<exists>i \<in> set (scanReads ls sec (lineNumber + 1)). \<not> (0 \<le> i \<and> i < int (length ls)))" for acc'
            using le cur no False by (intro "1.IH"(2)) auto
          show ?thesis using le cur no False in1 IH
            by (subst scanSection.simps, subst scanReads.simps) (simp add: ignoredAt_def)
        next
          case two: True
          show ?thesis
          proof (cases "lineAt ls (lineNumber - 2)")
            case (Inl err)
            then have "\<not> (0 \<le> lineNumber - 2 \<and> lineNumber - 2 < int (length ls))"
              using lineAt_Inl_iff by blast
            then show ?thesis using le cur no two Inl
              by (subst scanSection.simps, subst scanReads.simps) (simp add: ignoredAt_def)
          next
            case prev: (Inr previous)
            then have in2: "0 \<le> lineNumber - 2 \<and> lineNumber - 2 < int (length ls)"
              using lineAt_Inl_iff [of ls "lineNumber - 2"] by auto
            show ?thesis
            proof (cases "MatchString startsWithInlineIgnore previous")
              case True
              then show ?thesis using le cur no two prev in1 in2
                by (subst scanSection.simps, subst scanReads.simps) (simp add: ignoredAt_def)
            next
              case False
              have IH: "(\<exists>err. scanSection ls sec (lineNumber + 1) acc' = Inl err) \<longleftrightarrow>
                 (\<exists>i \<in> set (scanReads ls sec (lineNumber + 1)). \<not> (0 \<le> i \<and> i < int (length ls)))" for acc'
                using le cur no two prev False by (intro "1.IH"(1)) auto
              show ?thesis using le cur no two prev False in1 in2 IH
                by (subst scanSection.simps, subst scanReads.simps) (simp add: ignoredAt_def)
            qed
          qed
        qed
      qed
    qed
  qed
qed

text \<open>
  C10: when every region satisfies \<open>1 \<le> startLine \<le> endLine \<le> length lines\<close>, the filter
  returns without an index panic, and every index that the scan of a region reads lies
  inside the slice, between \<open>startLine - 2\<close> and \<open>endLine - 1\<close>, and is never negative:
  the read of the line before is guarded by \<open>lineNumber \<ge> 2\<close>.
\<close>

theorem filter_reads_in_bounds:
  assumes "\<forall>s \<in> set sections. inRange lines s"
  shows "(\<exists>kept. removeSectionsMarkedWithInlineComment sections lines = Inr kept) \<and>
         (\<forall>s \<in> set sections. \<forall>i \<in> set (scanReads lines s (startLine s)).
            0 \<le> i \<and> i < int (length lines) \<and> startLine s - 2 \<le> i \<and> i \<le> endLine s - 1)"
proof
  show "\<exists>kept. removeSectionsMarkedWithInlineComment sections lines = Inr kept"
    using removeLoop_suppressed [OF assms, of "[]"]
    by (simp add: removeSectionsMarkedWithInlineComment_def)
next
  show "\<forall>s \<in> set sections. \<forall>i \<in> set (scanReads lines s (startLine s)).
          0 \<le> i \<and> i < int (length lines) \<and> startLine s - 2 \<le> i \<and> i \<le> endLine s - 1"
  proof (intro ballI)
    fix s i
    assume s: "s \<in> set sections" and i: "i \<in> set (scanReads lines s (startLine s))"
    from s assms have r: "1 \<le> startLine s" "endLine s \<le> int (length lines)"
      by (auto simp: inRange_def)
    from scanReads_bounds [OF r(1), of lines s] i
    have "0 \<le> i \<and> startLine s - 2 \<le> i \<and> i \<le> endLine s - 1" by blast
    with r show "0 \<le> i \<and> i < int (length lines) \<and> startLine s - 2 \<le> i \<and> i \<le> endLine s - 1"
      by simp
  qed
qed

theorem filter_reads_in_bounds_witness:
  "inRange exLines secTop \<and> inRange exLines secA \<and>
   removeSectionsMarkedWithInlineComment [secTop, secA] exLines = Inr [secA] \<and>
   scanReads exLines secTop (startLine secTop) = [0, 1] \<and>
   scanReads exLines secA (startLine secA) = [6, 5, 7, 6, 8, 7]"
proof -
  have r: "\<forall>s \<in> set [secTop, secA]. inRange exLines s" by code_simp
  have e: "removeSectionsMarkedWithInlineComment [secTop, secA] exLines = Inr [secA]" by code_simp
  have t: "scanReads exLines secTop (startLine secTop) = [0, 1]" by code_simp
  have a: "scanReads exLines secA (startLine secA) = [6, 5, 7, 6, 8, 7]" by code_simp
  from filter_reads_in_bounds [OF r] r e t a show ?thesis by simp
qed

subsection \<open>Markers only remove regions\<close>

lemma scanSection_acc:
  "scanSection ls s l (a @ b) =
     (case scanSection ls s l b of Inl err \<Rightarrow> Inl err | Inr d \<Rightarrow> Inr (a @ d))"
proof (induction "nat (endLine s + 1 - l)" arbitrary: l b)
  case 0
  then have "endLine s < l" by simp
  then show ?case by (simp add: scanSection_past)
next
  case (Suc n)
  then have le: "l \<le> endLine s" by simp
  have IH: "scanSection ls s (l + 1) (a @ b') =
     (case scanSection ls s (l + 1) b' of Inl err \<Rightarrow> Inl err | Inr d \<Rightarrow> Inr (a @ d))" for b'
    using Suc.hyps(2) by (intro Suc.hyps(1)) auto
  show ?case
  proof (cases "ignoredAt ls l")
    case (Inl err)
    then show ?thesis using le
      by (subst scanSection.simps, subst (2) scanSection.simps) simp
  next
    case (Inr v)
    show ?thesis
    proof (cases v)
      case True
      then show ?thesis using le Inr
        by (subst scanSection.simps, subst (2) scanSection.simps) simp
    next
      case False
      then show ?thesis using le Inr IH [of b] IH [of "b @ [s]"]
        by (subst scanSection.simps, subst (2) scanSection.simps) auto
    qed
  qed
qed

lemma scanSection_shape:
  "scanSection ls s l b = Inr r \<Longrightarrow> r = b \<or> r = b @ [s]"
proof (induction "nat (endLine s + 1 - l)" arbitrary: l)
  case 0
  then have "endLine s < l" by simp
  with "0.prems" show ?case by (simp add: scanSection_past)
next
  case (Suc n)
  then have le: "l \<le> endLine s" by simp
  from Suc.prems le obtain v where v: "ignoredAt ls l = Inr v"
    by (subst (asm) scanSection.simps) (auto split: sum.splits)
  show ?case
  proof (cases v)
    case True
    with Suc.prems le v show ?thesis by (subst (asm) scanSection.simps) simp
  next
    case False
    show ?thesis
    proof (cases "l = endLine s")
      case True
      with Suc.prems le v False show ?thesis
        by (subst (asm) scanSection.simps) (simp add: scanSection_past)
    next
      case ne: False
      with Suc.prems le v False have "scanSection ls s (l + 1) b = Inr r"
        by (subst (asm) scanSection.simps) simp
      moreover have "n = nat (endLine s + 1 - (l + 1))" using Suc.hyps(2) by simp
      ultimately show ?thesis by (rule Suc.hyps(1) [rotated])
    qed
  qed
qed

lemma ignoredAt_mono:
  assumes "markersKept ls ls'" "ignoredAt ls l = Inr v"
  shows "\<exists>v'. ignoredAt ls' l = Inr v' \<and> (v \<longrightarrow> v')"
proof -
  from assms(2) have in1: "0 \<le> l - 1" "l - 1 < int (length ls)"
    by (auto simp: ignoredAt_def lineAt_def split: if_splits)
  then have n1: "nat (l - 1) < length ls" by simp
  have n2: "nat (l - 2) < length ls" using in1 by simp
  from assms(1) have len: "length ls' = length ls" by (simp add: markersKept_def)
  from assms(1) n1 have a: "inlineMarker (ls ! nat (l - 1)) \<longrightarrow> inlineMarker (ls' ! nat (l - 1))"
    by (simp add: markersKept_def)
  from assms(1) n2 have b: "markerLine (ls ! nat (l - 2)) \<longrightarrow> markerLine (ls' ! nat (l - 2))"
    by (simp add: markersKept_def)
  from assms(2) in1 a b show ?thesis
    by (auto simp: ignoredAt_def lineAt_def len MatchString_anyInlineIgnore
        MatchString_startsWithInlineIgnore split: if_splits)
qed

lemma scanSection_mono:
  assumes "markersKept ls ls'"
  shows "scanSection ls s l b = Inr r \<Longrightarrow>
         scanSection ls' s l b = Inr r \<or> scanSection ls' s l b = Inr b"
proof (induction "nat (endLine s + 1 - l)" arbitrary: l)
  case 0
  then have "endLine s < l" by simp
  with "0.prems" show ?case by (simp add: scanSection_past)
next
  case (Suc n)
  then have le: "l \<le> endLine s" by simp
  from Suc.prems le obtain v where v: "ignoredAt ls l = Inr v"
    by (subst (asm) scanSection.simps) (auto split: sum.splits)
  from ignoredAt_mono [OF assms v] obtain v' where v': "ignoredAt ls' l = Inr v'" "v \<longrightarrow> v'"
    by blast
  show ?case
  proof (cases v')
    case True
    with le v' show ?thesis by (subst (2) scanSection.simps) simp
  next
    case False
    with v' have nv: "\<not> v" by simp
    show ?thesis
    proof (cases "l = endLine s")
      case True
      with Suc.prems le v nv have "r = b @ [s]"
        by (subst (asm) scanSection.simps) (simp add: scanSection_past)
      moreover from True le v' False have "scanSection ls' s l b = Inr (b @ [s])"
        by (subst scanSection.simps) (simp add: scanSection_past)
      ultimately show ?thesis by simp
    next
      case ne: False
      with Suc.prems le v nv have "scanSection ls s (l + 1) b = Inr r"
        by (subst (asm) scanSection.simps) simp
      moreover have "n = nat (endLine s + 1 - (l + 1))" using Suc.hyps(2) by simp
      ultimately have "scanSection ls' s (l + 1) b = Inr r \<or> scanSection ls' s (l + 1) b = Inr b"
        by (rule Suc.hyps(1) [rotated])
      moreover have "scanSection ls' s l b = scanSection ls' s (l + 1) b"
        using le v' False ne by (subst scanSection.simps) simp
      ultimately show ?thesis by simp
    qed
  qed
qed

lemma removeLoop_acc:
  "removeLoop ls secs acc =
     (case removeLoop ls secs [] of Inl err \<Rightarrow> Inl err | Inr d \<Rightarrow> Inr (acc @ d))"
proof (induction secs arbitrary: acc)
  case Nil
  then show ?case by simp
next
  case (Cons s secs)
  have a: "scanSection ls s (startLine s) acc =
     (case scanSection ls s (startLine s) [] of Inl err \<Rightarrow> Inl err | Inr d \<Rightarrow> Inr (acc @ d))"
    using scanSection_acc [of ls s "startLine s" acc "[]"] by simp
  show ?case
  proof (cases "scanSection ls s (startLine s) []")
    case (Inl err)
    with a show ?thesis by simp
  next
    case (Inr d)
    with a Cons.IH [of "acc @ d"] Cons.IH [of d] show ?thesis
      by (simp split: sum.splits)
  qed
qed

lemma removeLoop_mono:
  assumes "markersKept ls ls'"
  shows "removeLoop ls secs [] = Inr kept \<Longrightarrow>
         \<exists>kept'. removeLoop ls' secs [] = Inr kept' \<and> subseq kept' kept \<and> subseq kept secs"
proof (induction secs arbitrary: kept)
  case Nil
  then show ?case by auto
next
  case (Cons s secs)
  from Cons.prems obtain d where d: "scanSection ls s (startLine s) [] = Inr d"
    and rest: "removeLoop ls secs d = Inr kept"
    by (auto split: sum.splits)
  from rest obtain q where q: "removeLoop ls secs [] = Inr q" and kept: "kept = d @ q"
    by (subst (asm) removeLoop_acc) (auto split: sum.splits)
  from Cons.IH [OF q] obtain q' where q': "removeLoop ls' secs [] = Inr q'"
    "subseq q' q" "subseq q secs" by blast
  from scanSection_shape [OF d] have shape: "d = [] \<or> d = [s]" by simp
  from scanSection_mono [OF assms d] obtain d' where d': "scanSection ls' s (startLine s) [] = Inr d'"
    "d' = d \<or> d' = []" by auto
  have "removeLoop ls' (s # secs) [] = Inr (d' @ q')"
    using d'(1) q'(1) by (simp, subst removeLoop_acc) simp
  moreover have "subseq (d' @ q') kept"
    using d'(2) q'(2) kept by (auto intro: list_emb_append_mono list_emb_append2)
  moreover have "subseq kept (s # secs)"
    using shape q'(3) kept by auto
  ultimately show ?case by blast
qed

lemma inlineMarker_append: "inlineMarker m \<Longrightarrow> inlineMarker (l @ m)"
  by (induction l) simp_all

lemma HasPrefix_iff: "HasPrefix s p \<longleftrightarrow> (\<exists>r. s = p @ r)"
proof
  assume "HasPrefix s p"
  then have "s = p @ drop (length p) s"
    unfolding HasPrefix_def by (metis append_take_drop_id)
  then show "\<exists>r. s = p @ r" ..
next
  assume "\<exists>r. s = p @ r"
  then show "HasPrefix s p" by (auto simp: HasPrefix_def)
qed

lemma commentHere_iff: "commentHere s \<longleftrightarrow> (\<exists>r. s = ''//'' @ r \<and> phraseAhead r)"
proof
  assume c: "commentHere s"
  then obtain r where r: "s = ''//'' @ r" by (auto simp: commentHere_def HasPrefix_iff)
  then have "drop 2 s = r" by simp
  with c r show "\<exists>r. s = ''//'' @ r \<and> phraseAhead r" by (auto simp: commentHere_def)
next
  assume "\<exists>r. s = ''//'' @ r \<and> phraseAhead r"
  then obtain r where r: "s = ''//'' @ r" "phraseAhead r" by blast
  then have "drop 2 s = r" by simp
  moreover have "HasPrefix s ''//''" using r(1) HasPrefix_iff by blast
  ultimately show "commentHere s" using r(2) by (simp add: commentHere_def)
qed

lemma phraseHere_iff:
  "phraseHere s \<longleftrightarrow>
   (\<exists>r. s = ''untested section'' @ r \<and>
        (case r of [] \<Rightarrow> True | c # _ \<Rightarrow> c \<in> set spaceClass \<or> c = CHR '',''))"
proof
  assume c: "phraseHere s"
  then obtain r where r: "s = ''untested section'' @ r" by (auto simp: phraseHere_def HasPrefix_iff)
  then have "drop 16 s = r" by simp
  with c r show "\<exists>r. s = ''untested section'' @ r \<and>
        (case r of [] \<Rightarrow> True | c # _ \<Rightarrow> c \<in> set spaceClass \<or> c = CHR '','')"
    by (auto simp: phraseHere_def)
next
  assume "\<exists>r. s = ''untested section'' @ r \<and>
        (case r of [] \<Rightarrow> True | c # _ \<Rightarrow> c \<in> set spaceClass \<or> c = CHR '','')"
  then obtain r where r: "s = ''untested section'' @ r"
    "(case r of [] \<Rightarrow> True | c # _ \<Rightarrow> c \<in> set spaceClass \<or> c = CHR '','')" by blast
  then have "drop 16 s = r" by simp
  moreover have "HasPrefix s ''untested section''" using r(1) HasPrefix_iff by blast
  ultimately show "phraseHere s" using r(2) by (simp add: phraseHere_def)
qed

lemma phraseAhead_prepend: "newline \<notin> set p \<Longrightarrow> phraseAhead t \<Longrightarrow> phraseAhead (p @ t)"
  by (induction p) auto

lemma phraseAhead_here: "phraseHere s \<Longrightarrow> phraseAhead s"
  by (cases s) simp_all

lemma inlineMarker_phraseAhead: "inlineMarker m \<Longrightarrow> newline \<notin> set m \<Longrightarrow> phraseAhead m"
proof (induction m)
  case Nil
  then show ?case by simp
next
  case (Cons c cs)
  show ?case
  proof (cases "commentHere (c # cs)")
    case True
    then obtain r where r: "c # cs = ''//'' @ r" "phraseAhead r"
      unfolding commentHere_iff by blast
    have "newline \<notin> set ''//''" by (simp add: newline_def)
    from phraseAhead_prepend [OF this r(2)] r(1) show ?thesis by simp
  next
    case False
    with Cons show ?thesis by auto
  qed
qed

lemma phraseAhead_append:
  assumes "inlineMarker m" "newline \<notin> set m"
  shows "phraseAhead r \<Longrightarrow> phraseAhead (r @ m)"
proof (induction r)
  case Nil
  then show ?case by (simp add: phraseHere_iff)
next
  case (Cons c cs)
  show ?case
  proof (cases "phraseHere (c # cs)")
    case True
    then obtain t where t: "c # cs = ''untested section'' @ t"
      "(case t of [] \<Rightarrow> True | c # _ \<Rightarrow> c \<in> set spaceClass \<or> c = CHR '','')"
      unfolding phraseHere_iff by blast
    show ?thesis
    proof (cases t)
      case Nil
      have "newline \<notin> set ''untested section''" by (simp add: newline_def)
      from phraseAhead_prepend [OF this inlineMarker_phraseAhead [OF assms]]
      show ?thesis unfolding t(1) Nil by simp
    next
      case (Cons d t')
      with t have "(c # cs) @ m = ''untested section'' @ (d # t' @ m)"
        "d \<in> set spaceClass \<or> d = CHR '',''" by simp_all
      then have "phraseHere ((c # cs) @ m)" unfolding phraseHere_iff by auto
      then show ?thesis by (rule phraseAhead_here)
    qed
  next
    case False
    with Cons show ?thesis by simp
  qed
qed

lemma commentHere_append:
  assumes "inlineMarker m" "newline \<notin> set m" "commentHere t"
  shows "commentHere (t @ m)"
proof -
  from assms(3) obtain r where r: "t = ''//'' @ r" "phraseAhead r"
    unfolding commentHere_iff by blast
  from phraseAhead_append [OF assms(1,2) r(2)] r(1) show ?thesis
    unfolding commentHere_iff by auto
qed

lemma markerLine_append:
  assumes "inlineMarker m" "newline \<notin> set m" "markerLine l"
  shows "markerLine (l @ m)"
proof -
  let ?P = "\<lambda>c. c \<in> set spaceClass"
  from assms(3) have c: "commentHere (dropWhile ?P l)" by (simp add: markerLine_def)
  then obtain r where "dropWhile ?P l = ''//'' @ r" unfolding commentHere_iff by blast
  then have "dropWhile ?P l \<noteq> []" by simp
  then have "\<not> (\<forall>x \<in> set l. ?P x)" unfolding dropWhile_eq_Nil_conv .
  then obtain x where "x \<in> set l" "\<not> ?P x" by blast
  then have "dropWhile ?P (l @ m) = dropWhile ?P l @ m" by (rule dropWhile_append1)
  with commentHere_append [OF assms(1,2) c] show ?thesis by (simp add: markerLine_def)
qed

lemma markersKept_append:
  assumes "inlineMarker m" "newline \<notin> set m" "i < length ls"
  shows "markersKept ls (ls[i := ls ! i @ m])"
  unfolding markersKept_def
proof (intro conjI allI impI)
  show "length (ls[i := ls ! i @ m]) = length ls" by simp
next
  fix j assume "j < length ls" "inlineMarker (ls ! j)"
  then show "inlineMarker (ls[i := ls ! i @ m] ! j)"
    using assms by (cases "j = i") (simp_all add: inlineMarker_append)
next
  fix j assume "j < length ls" "markerLine (ls ! j)"
  then show "markerLine (ls[i := ls ! i @ m] ! j)"
    using assms by (cases "j = i") (simp_all add: markerLine_append)
qed

text \<open>
  C9: appending a marker to one line of the file can only remove regions from the result
  of the filter: when the filter returns for the original lines it returns for the new
  lines, what it keeps then is a subsequence of what it kept before, and what it keeps is
  always a subsequence of the regions it was given.
\<close>

theorem suppression_monotonic:
  assumes "i < length lines" "inlineMarker m" "newline \<notin> set m"
    and "removeSectionsMarkedWithInlineComment sections lines = Inr kept"
  shows "\<exists>kept'. removeSectionsMarkedWithInlineComment sections (lines[i := lines ! i @ m]) = Inr kept'
           \<and> subseq kept' kept \<and> set kept' \<subseteq> set kept \<and> subseq kept sections"
proof -
  have k: "markersKept lines (lines[i := lines ! i @ m])"
    using assms(2,3,1) by (rule markersKept_append)
  from assms(4) have "removeLoop lines sections [] = Inr kept"
    by (simp add: removeSectionsMarkedWithInlineComment_def)
  from removeLoop_mono [OF k this] obtain kept' where
    "removeLoop (lines[i := lines ! i @ m]) sections [] = Inr kept'"
    "subseq kept' kept" "subseq kept sections" by blast
  moreover from this(2) have "set kept' \<subseteq> set kept"
    by (auto dest: list_emb_set)
  ultimately show ?thesis by (auto simp: removeSectionsMarkedWithInlineComment_def)
qed

theorem suppression_monotonic_witness:
  "7 < length exLines \<and> inlineMarker exMarker \<and> newline \<notin> set exMarker \<and>
   removeSectionsMarkedWithInlineComment [secB, secA] exLines = Inr [secA] \<and>
   (\<exists>kept'. removeSectionsMarkedWithInlineComment [secB, secA]
               (exLines[7 := exLines ! 7 @ exMarker]) = Inr kept'
            \<and> subseq kept' [secA] \<and> set kept' \<subseteq> set [secA] \<and> subseq [secA] [secB, secA]) \<and>
   removeSectionsMarkedWithInlineComment [secB, secA]
     (exLines[7 := exLines ! 7 @ exMarker]) = Inr []"
proof -
  have i: "7 < length exLines" by code_simp
  have m: "inlineMarker exMarker" by code_simp
  have n: "newline \<notin> set exMarker" by code_simp
  have k: "removeSectionsMarkedWithInlineComment [secB, secA] exLines = Inr [secA]" by code_simp
  have k': "removeSectionsMarkedWithInlineComment [secB, secA]
     (exLines[7 := exLines ! 7 @ exMarker]) = Inr []" by code_simp
  from suppression_monotonic [OF i m n k] i m n k k' show ?thesis by blast
qed

section \<open>The parser returns the records without coverage\<close>

lemma HasSuffix_zero: "HasSuffix line '' 0'' \<longleftrightarrow> hitCountIsZero line"
proof -
  have "CHR ''0'' \<noteq> CHR '' ''" by simp
  from suffix_two_iff [OF this, of line] show ?thesis
    unfolding HasSuffix_iff hitCountIsZero_def Let_def Split_char_length Split_char_last .
qed

lemma collectUntested_eq:
  "collectUntested NewSection ls acc
     = acc @ map NewSection (filter (\<lambda>l. HasSuffix l '' 0'') ls)"
  by (induction ls arbitrary: acc) simp_all

lemma untestedSectionsOf_eq:
  "untestedSectionsOf NewSection content
     = map NewSection (filter hitCountIsZero (tl (splitWithoutEmpty content [newline])))"
  by (simp add: untestedSectionsOf_def Let_def collectUntested_eq HasSuffix_zero)

text \<open>
  C1: for every profile text the parser returns one region per record that ends in a
  space followed by \<open>0\<close>, that is, whose last field after a separating space is exactly
  \<open>0\<close> (a count of \<open>10\<close> gives no region), in the order of the records; the records
  are the non-empty lines of the profile after the first one, the mode line.
\<close>

theorem parser_returns_zero_hit_records:
  assumes "files e coverageFilePath = Some content"
  shows "untestedSections e NewSection coverageFilePath
           = Inr (map NewSection (filter hitCountIsZero (tl (splitWithoutEmpty content [newline]))))
         \<and> (\<forall>line. hitCountIsZero line \<longleftrightarrow> HasSuffix line '' 0'')"
proof -
  let ?records = "tl (splitWithoutEmpty content [newline])"
  from assms have read: "untestedSections e NewSection coverageFilePath
      = Inr (untestedSectionsOf NewSection content)"
    by (simp add: untestedSections_def readFile_def)
  have "untestedSectionsOf NewSection content = collectUntested NewSection ?records []"
    by (simp add: untestedSectionsOf_def Let_def)
  also have "\<dots> = map NewSection (filter (\<lambda>l. HasSuffix l '' 0'') ?records)"
    by (simp add: collectUntested_eq)
  also have "\<dots> = map NewSection (filter hitCountIsZero ?records)"
    by (simp only: HasSuffix_zero)
  finally show ?thesis using read by (simp add: HasSuffix_zero)
qed

theorem parser_returns_zero_hit_records_witness:
  "files exEnv ''coverage.out'' = Some exProfile \<and>
   untestedSections exEnv exNewSection ''coverage.out'' = Inr [secA, secC] \<and>
   \<not> hitCountIsZero ''a.go:3.1,3.9 1 10''"
proof -
  have f: "files exEnv ''coverage.out'' = Some exProfile" by code_simp
  have v: "map exNewSection (filter hitCountIsZero (tl (splitWithoutEmpty exProfile [newline])))
      = [secA, secC]" by code_simp
  have n: "\<not> hitCountIsZero ''a.go:3.1,3.9 1 10''" by code_simp
  from parser_returns_zero_hit_records [OF f, of exNewSection] f v n show ?thesis by simp
qed

text \<open>
  A hit count that white space other than one space separates or follows is not seen: the
  record \<open>a.go:7.2,9.3 2<tab>0\<close> and the records of a profile whose lines end in carriage
  return and newline have the trailing token \<open>0\<close> and give no region.
\<close>

theorem parser_whitespace_counterexample:
  "map trailingToken (tl (splitWithoutEmpty exProfileTab [newline])) = [''0''] \<and>
   untestedSectionsOf exNewSection exProfileTab = [] \<and>
   map trailingToken (tl (splitWithoutEmpty exProfileCR [newline])) = [''0''] \<and>
   untestedSectionsOf exNewSection exProfileCR = []"
  by code_simp

section \<open>The resolved paths\<close>














section \<open>The budget reader finds the first budget comment\<close>

lemma rmatch_Star_head:
  assumes "charRe x P"
  shows "\<exists>b' more. rmatch (Star x) (b, s, caps) = (b', dropWhile P s, caps) # more"
proof (induction s arbitrary: b)
  case Nil
  show ?case unfolding rmatch_Star_Nil [OF assms] by simp
next
  case (Cons c cs)
  show ?case
  proof (cases "P c")
    case True
    from Cons [of False] obtain b' more where
      "rmatch (Star x) (False, cs, caps) = (b', dropWhile P cs, caps) # more" by blast
    with True show ?thesis unfolding rmatch_Star_Cons [OF assms] by simp
  next
    case False
    then show ?thesis unfolding rmatch_Star_Cons [OF assms] by simp
  qed
qed

lemma rmatch_Seq_Star_skip:
  assumes "charRe x P" and fails: "\<And>b c cs caps. P c \<Longrightarrow> rmatch r (b, c # cs, caps) = []"
  shows "\<exists>b'. rmatch (Seq (Star x) r) (b, s, caps) = rmatch r (b', dropWhile P s, caps)"
proof (induction s arbitrary: b)
  case Nil
  show ?case unfolding rmatch_Seq_Star_Nil [OF assms(1)] by auto
next
  case (Cons c cs)
  show ?case
  proof (cases "P c")
    case True
    from Cons [of False] obtain b' where
      "rmatch (Seq (Star x) r) (False, cs, caps) = rmatch r (b', dropWhile P cs, caps)" by blast
    with True fails [OF True] show ?thesis
      unfolding rmatch_Seq_Star_Cons [OF assms(1)] by (auto simp del: rmatch.simps)
  next
    case False
    then show ?thesis unfolding rmatch_Seq_Star_Cons [OF assms(1)] by (auto simp del: rmatch.simps)
  qed
qed

lemma length_takeWhile_drop:
  "length s - length (dropWhile P s) = length (takeWhile P s)"
proof -
  have "length (takeWhile P s @ dropWhile P s) = length s" by simp
  then show ?thesis by (simp del: takeWhile_dropWhile_id)
qed

lemma firstCaps_digits:
  "firstCaps (Grp (Plus (Cls digitClass))) b s caps =
     (let digits = takeWhile (\<lambda>c. c \<in> set digitClass) s
      in if digits = [] then None else Some (caps @ [digits]))"
proof (cases s)
  case Nil
  then show ?thesis by (simp add: firstCaps_def Plus_def)
next
  case (Cons c cs)
  let ?P = "\<lambda>c. c \<in> set digitClass"
  show ?thesis
  proof (cases "?P c")
    case False
    with Cons show ?thesis by (simp add: firstCaps_def Plus_def)
  next
    case True
    from rmatch_Star_head [OF charRe_Cls, of digitClass False cs caps] obtain b' more where
      st: "rmatch (Star (Cls digitClass)) (False, cs, caps) = (b', dropWhile ?P cs, caps) # more"
      by blast
    have "length cs - length (dropWhile ?P cs) = length (takeWhile ?P cs)"
      by (rule length_takeWhile_drop)
    moreover have "length (dropWhile ?P cs) \<le> length cs" by (rule length_dropWhile_le)
    ultimately have "Suc (length cs) - length (dropWhile ?P cs) = Suc (length (takeWhile ?P cs))"
      by simp
    then have "take (Suc (length cs) - length (dropWhile ?P cs)) (c # cs) = c # takeWhile ?P cs"
      by (simp add: takeWhile_eq_take [symmetric])
    with Cons True st show ?thesis by (simp add: firstCaps_def Plus_def)
  qed
qed

lemma digits_fail_on_space:
  "c = CHR '' '' \<Longrightarrow> rmatch (Grp (Plus (Cls digitClass))) (b, c # cs, caps) = []"
  by (simp add: Plus_def digitClass_def)

lemma lit_fails_on_space:
  "c = CHR '' '' \<Longrightarrow> rmatch (Seq (lit ''untested sections:'') r) (b, c # cs, caps) = []"
  unfolding rmatch_Seq_lit by (simp add: HasPrefix_def)

lemma firstCaps_Seq_lit:
  "firstCaps (Seq (lit w) r) b s caps =
     (if HasPrefix s w then firstCaps r (b \<and> w = []) (drop (length w) s) caps else None)"
  unfolding firstCaps_def rmatch_Seq_lit by (simp del: rmatch.simps lit.simps)

lemma firstCaps_skip:
  assumes "charRe x P" and "\<And>b c cs caps. P c \<Longrightarrow> rmatch r (b, c # cs, caps) = []"
  shows "\<exists>b'. firstCaps (Seq (Star x) r) b s caps = firstCaps r b' (dropWhile P s) caps"
proof -
  from rmatch_Seq_Star_skip [where x = x and P = P and r = r and b = b and s = s and caps = caps,
      OF assms]
  obtain b' where "rmatch (Seq (Star x) r) (b, s, caps) = rmatch r (b', dropWhile P s, caps)"
    by blast
  then have "firstCaps (Seq (Star x) r) b s caps = firstCaps r b' (dropWhile P s) caps"
    by (simp only: firstCaps_def)
  then show ?thesis ..
qed

lemma firstCaps_spaces_digits:
  "firstCaps (Seq (Star (Chr CHR '' '')) (Grp (Plus (Cls digitClass)))) b s caps =
     (let digits = takeWhile (\<lambda>c. c \<in> set digitClass) (dropWhile (\<lambda>c. c = CHR '' '') s)
      in if digits = [] then None else Some (caps @ [digits]))"
proof -
  from firstCaps_skip [where x = "Chr CHR '' ''" and P = "\<lambda>x. x = CHR '' ''"
      and r = "Grp (Plus (Cls digitClass))" and b = b and s = s and caps = caps,
      OF charRe_Chr digits_fail_on_space]
  obtain b' where "firstCaps (Seq (Star (Chr CHR '' '')) (Grp (Plus (Cls digitClass)))) b s caps
      = firstCaps (Grp (Plus (Cls digitClass))) b' (dropWhile (\<lambda>c. c = CHR '' '') s) caps"
    by blast
  then show ?thesis by (simp only: firstCaps_digits)
qed

lemma firstCaps_phrase_digits:
  "firstCaps (Seq (lit ''untested sections:'')
       (Seq (Star (Chr CHR '' '')) (Grp (Plus (Cls digitClass))))) b s caps =
     (if HasPrefix s ''untested sections:'' then
        (let digits = takeWhile (\<lambda>c. c \<in> set digitClass)
                        (dropWhile (\<lambda>c. c = CHR '' '') (drop 18 s))
         in if digits = [] then None else Some (caps @ [digits]))
      else None)"
proof -
  have len18: "length ''untested sections:'' = 18" by simp
  show ?thesis unfolding firstCaps_Seq_lit firstCaps_spaces_digits len18 ..
qed

lemma firstCaps_comment_body:
  "firstCaps (Seq (Star (Chr CHR '' '')) (Seq (lit ''untested sections:'')
       (Seq (Star (Chr CHR '' '')) (Grp (Plus (Cls digitClass)))))) b s caps =
     (let r = dropWhile (\<lambda>c. c = CHR '' '') s
      in if HasPrefix r ''untested sections:'' then
           (let digits = takeWhile (\<lambda>c. c \<in> set digitClass)
                           (dropWhile (\<lambda>c. c = CHR '' '') (drop 18 r))
            in if digits = [] then None else Some (caps @ [digits]))
         else None)"
proof -
  from firstCaps_skip [where x = "Chr CHR '' ''" and P = "\<lambda>x. x = CHR '' ''"
      and r = "Seq (lit ''untested sections:'')
                 (Seq (Star (Chr CHR '' '')) (Grp (Plus (Cls digitClass))))"
      and b = b and s = s and caps = caps, OF charRe_Chr lit_fails_on_space]
  obtain b' where "firstCaps (Seq (Star (Chr CHR '' '')) (Seq (lit ''untested sections:'')
       (Seq (Star (Chr CHR '' '')) (Grp (Plus (Cls digitClass)))))) b s caps
      = firstCaps (Seq (lit ''untested sections:'')
          (Seq (Star (Chr CHR '' '')) (Grp (Plus (Cls digitClass)))))
          b' (dropWhile (\<lambda>c. c = CHR '' '') s) caps"
    by blast
  then show ?thesis unfolding firstCaps_phrase_digits Let_def .
qed

lemma firstCaps_perFileIgnore:
  "firstCaps perFileIgnore b s caps = map_option (\<lambda>digits. caps @ [digits]) (budgetHere s)"
proof -
  have len2: "length ''//'' = 2" by simp
  show ?thesis
    unfolding perFileIgnore_def firstCaps_Seq_lit firstCaps_comment_body len2 budgetHere_def Let_def
    by (simp del: rmatch.simps lit.simps)
qed

lemma findFirst_perFileIgnore:
  "(case findFirst perFileIgnore i (starts b s) of
      None \<Rightarrow> budgetScan s n = None
    | Some (j, m, caps) \<Rightarrow>
        i \<le> j \<and> (\<exists>digits. caps = [digits] \<and>
          budgetScan s n = Some (digits, n + CountNewlines (take (j - i) s))))"
proof (induction s arbitrary: i b n)
  case Nil
  have "budgetHere [] = None" by (simp add: budgetHere_def HasPrefix_def)
  with firstCaps_perFileIgnore [of b "[]" "[]"] show ?case
    by (auto simp: firstCaps_def split: list.splits prod.splits)
next
  case (Cons c cs)
  show ?case
  proof (cases "budgetHere (c # cs)")
    case None
    with firstCaps_perFileIgnore [of b "c # cs" "[]"]
    have e: "rmatch perFileIgnore (b, c # cs, []) = []"
      by (auto simp: firstCaps_def split: list.splits prod.splits)
    have step: "findFirst perFileIgnore i (starts b (c # cs))
        = findFirst perFileIgnore (Suc i) (starts False cs)"
      using e by simp
    show ?thesis
    proof (cases "findFirst perFileIgnore (Suc i) (starts False cs)")
      case N: None
      with Cons [where i = "Suc i" and b = False and n = "if c = newline then Suc n else n"] None show ?thesis
        unfolding step by simp
    next
      case (Some r)
      obtain j m caps where r: "r = (j, m, caps)" by (cases r)
      with Some Cons [where i = "Suc i" and b = False and n = "if c = newline then Suc n else n"]
      obtain digits where j: "Suc i \<le> j" "caps = [digits]"
        "budgetScan cs (if c = newline then Suc n else n)
          = Some (digits, (if c = newline then Suc n else n) + CountNewlines (take (j - Suc i) cs))"
        by auto
      from j(1) obtain k where k: "j - i = Suc k" "j - Suc i = k" by (cases "j - i") auto
      have "n + CountNewlines (take (j - i) (c # cs))
          = (if c = newline then Suc n else n) + CountNewlines (take (j - Suc i) cs)"
        unfolding k by (simp add: CountNewlines_def)
      with j None Some r show ?thesis unfolding step by simp
    qed
  next
    case (Some digits)
    with firstCaps_perFileIgnore [of b "c # cs" "[]"]
    obtain b' s' more where "rmatch perFileIgnore (b, c # cs, []) = (b', s', [digits]) # more"
      by (auto simp: firstCaps_def split: list.splits prod.splits)
    with Some show ?thesis by (simp add: CountNewlines_def)
  qed
qed

lemma configuredUntestedOf_eq:
  "configuredUntestedOf content = Inr (configuredBudget content)"
proof (cases "findFirst perFileIgnore 0 (starts True content)")
  case None
  with findFirst_perFileIgnore [where i = 0 and b = True and s = content and n = 0] show ?thesis
    by (simp add: configuredUntestedOf_def configuredBudget_def FindStringSubmatch_def)
next
  case (Some r)
  obtain j m caps where r: "r = (j, m, caps)" by (cases r)
  with Some findFirst_perFileIgnore [where i = 0 and b = True and s = content and n = 0]
  obtain digits where "caps = [digits]"
    "budgetScan content 0 = Some (digits, CountNewlines (take j content))" by auto
  with Some r show ?thesis
    by (simp add: configuredUntestedOf_def configuredBudget_def FindStringSubmatch_def
        FindStringIndex_def)
qed

text \<open>
  C4: the budget reader returns the number of the first budget comment of the file and the
  line of the comment, the count of the newlines before it plus one, and \<open>(0, 0)\<close>
  when the file has none. A budget comment is \<open>//\<close>, any number of spaces,
  \<open>untested sections:\<close> in exactly this spelling and case, any number of spaces and
  digits.
\<close>

theorem budget_reader_first_match:
  assumes "files e pth = Some content"
  shows "configuredUntestedForFile e pth = Inr (configuredBudget content)"
proof -
  from assms have "configuredUntestedForFile e pth = configuredUntestedOf content"
    by (simp add: configuredUntestedForFile_def readFile_def)
  also have "\<dots> = Inr (configuredBudget content)"
    by (rule configuredUntestedOf_eq)
  finally show ?thesis .
qed

theorem budget_reader_first_match_witness:
  "files exEnv ''b.go'' = Some exSourceB \<and>
   configuredUntestedForFile exEnv ''b.go'' = Inr (1, 1) \<and>
   configuredBudget (''x'' @ [newline] @ ''y //   untested sections:   007'' @ [newline]
                     @ ''// untested sections: 5'') = (7, 2) \<and>
   configuredBudget ''no budget here'' = (0, 0)"
proof -
  have f: "files exEnv ''b.go'' = Some exSourceB" by code_simp
  have v: "configuredBudget exSourceB = (1, 1)" by code_simp
  have w: "configuredBudget (''x'' @ [newline] @ ''y //   untested sections:   007'' @ [newline]
                     @ ''// untested sections: 5'') = (7, 2)" by code_simp
  have z: "configuredBudget ''no budget here'' = (0, 0)" by code_simp
  from budget_reader_first_match [OF f] f v w z show ?thesis by simp
qed

text \<open>
  The pattern is neither tolerant of case nor of spacing inside the phrase: the comment
  \<open>// Untested Sections: 3\<close> and the comment with two spaces between the words are not
  budget comments.
\<close>

theorem budget_reader_case_counterexample:
  "configuredUntestedOf ''// untested sections: 3'' = Inr (3, 1) \<and>
   configuredUntestedOf ''// Untested Sections: 3'' = Inr (0, 0) \<and>
   configuredUntestedOf ''// untested  sections: 3'' = Inr (0, 0)"
  by code_simp

section \<open>Generated files and the exit code\<close>

subsection \<open>Generated files\<close>

lemma rmatch_dotGo_iff:
  "rmatch (Seq (lit ''.go'') Eol) (b, s, caps) \<noteq> [] \<longleftrightarrow> s = ''.go''"
proof -
  have len: "length ''.go'' = 3" by simp
  have "HasPrefix s ''.go'' \<and> drop 3 s = [] \<longleftrightarrow> s = ''.go''"
    unfolding HasPrefix_iff by auto
  then show ?thesis unfolding rmatch_Seq_lit len by (auto simp del: lit.simps)
qed

lemma rmatch_dotGoAhead_iff:
  "rmatch (Seq (Star Dot) (Seq (lit ''.go'') Eol)) (b, s, caps) \<noteq> [] \<longleftrightarrow> dotGoAhead s"
proof (induction s arbitrary: b)
  case Nil
  show ?case unfolding rmatch_Seq_Star_Nil [OF charRe_Dot] rmatch_dotGo_iff by simp
next
  case (Cons c cs)
  show ?case
    unfolding rmatch_Seq_Star_Cons [OF charRe_Dot] using Cons rmatch_dotGo_iff
    by (auto simp del: rmatch.simps lit.simps simp: newline_def)
qed

lemma rmatch_generatedHere_iff:
  "rmatch (Seq (lit ''generated'') (Seq (Star Dot) (Seq (lit ''.go'') Eol))) (b, s, caps) \<noteq> []
     \<longleftrightarrow> generatedHere s"
proof -
  have len: "length ''generated'' = 9" by simp
  show ?thesis unfolding rmatch_Seq_lit len generatedHere_def using rmatch_dotGoAhead_iff
    by (simp del: rmatch.simps lit.simps)
qed

lemma generated_fails_on_slash:
  "c = CHR ''/'' \<Longrightarrow>
   rmatch (Seq (lit ''generated'') (Seq (Star Dot) (Seq (lit ''.go'') Eol))) (b, c # cs, caps) = []"
  unfolding rmatch_Seq_lit by (simp add: HasPrefix_def)

lemma rmatch_generatedFile_iff:
  "rmatch generatedFile (b, s, caps) \<noteq> [] \<longleftrightarrow> generatedHere (dropWhile (\<lambda>c. c = CHR ''/'') s)"
proof -
  from rmatch_Seq_Star_skip [where x = "Chr CHR ''/''" and P = "\<lambda>x. x = CHR ''/''"
      and r = "Seq (lit ''generated'') (Seq (Star Dot) (Seq (lit ''.go'') Eol))"
      and b = b and s = s and caps = caps, OF charRe_Chr generated_fails_on_slash]
  obtain b' where "rmatch generatedFile (b, s, caps)
      = rmatch (Seq (lit ''generated'') (Seq (Star Dot) (Seq (lit ''.go'') Eol)))
          (b', dropWhile (\<lambda>c. c = CHR ''/'') s, caps)"
    unfolding generatedFile_def by blast
  then show ?thesis by (simp only: rmatch_generatedHere_iff)
qed

lemma generatedHere_not_slash: "generatedHere (c # cs) \<Longrightarrow> c \<noteq> CHR ''/''"
  by (auto simp: generatedHere_def HasPrefix_iff)

lemma generatedName_dropWhile: "generatedName (dropWhile P s) \<Longrightarrow> generatedName s"
  by (induction s) (auto split: if_splits)

lemma generatedHere_Name: "generatedHere s \<Longrightarrow> generatedName s"
  by (cases s) (simp_all add: generatedHere_def HasPrefix_def)

lemma list_ex_starts_generated:
  "list_ex (\<lambda>st. rmatch generatedFile st \<noteq> []) (starts b s) \<longleftrightarrow> generatedName s"
proof (induction s arbitrary: b)
  case Nil
  have "\<not> generatedHere []" by (simp add: generatedHere_def HasPrefix_def)
  then show ?case using rmatch_generatedFile_iff [of b "[]" "[]"] by simp
next
  case (Cons c cs)
  have "generatedHere (dropWhile (\<lambda>c. c = CHR ''/'') (c # cs)) \<or> generatedName cs
      \<longleftrightarrow> generatedHere (c # cs) \<or> generatedName cs"
  proof (cases "c = CHR ''/''")
    case True
    then have "\<not> generatedHere (c # cs)" using generatedHere_not_slash by blast
    moreover have "generatedHere (dropWhile (\<lambda>c. c = CHR ''/'') cs) \<Longrightarrow> generatedName cs"
      by (rule generatedName_dropWhile, rule generatedHere_Name)
    ultimately show ?thesis using True by auto
  next
    case False
    then show ?thesis by simp
  qed
  with Cons show ?case using rmatch_generatedFile_iff [of b "c # cs" "[]"] by simp
qed

lemma MatchString_generatedFile: "MatchString generatedFile s \<longleftrightarrow> generatedName s"
  by (simp add: MatchString_def list_ex_starts_generated)

lemma dotGoAhead_iff: "dotGoAhead s \<longleftrightarrow> (\<exists>mid. s = mid @ ''.go'' \<and> newline \<notin> set mid)"
proof (induction s)
  case Nil
  then show ?case by simp
next
  case (Cons c cs)
  show ?case
  proof
    assume "dotGoAhead (c # cs)"
    then consider "c # cs = ''.go''" | "c \<noteq> newline" "dotGoAhead cs" by auto
    then show "\<exists>mid. c # cs = mid @ ''.go'' \<and> newline \<notin> set mid"
    proof cases
      case 1
      then have "c # cs = [] @ ''.go'' \<and> newline \<notin> set []" by simp
      then show ?thesis by blast
    next
      case 2
      with Cons obtain mid where "cs = mid @ ''.go''" "newline \<notin> set mid" by blast
      with 2 have "c # cs = (c # mid) @ ''.go'' \<and> newline \<notin> set (c # mid)" by simp
      then show ?thesis by blast
    qed
  next
    assume "\<exists>mid. c # cs = mid @ ''.go'' \<and> newline \<notin> set mid"
    then obtain mid where mid: "c # cs = mid @ ''.go''" "newline \<notin> set mid" by blast
    show "dotGoAhead (c # cs)"
    proof (cases mid)
      case Nil
      with mid show ?thesis by simp
    next
      case (Cons d mid')
      with mid have "cs = mid' @ ''.go''" "newline \<notin> set mid'" "c \<noteq> newline" by auto
      with Cons.IH show ?thesis by auto
    qed
  qed
qed

lemma generatedHere_iff:
  "generatedHere s \<longleftrightarrow> (\<exists>mid. s = ''generated'' @ mid @ ''.go'' \<and> newline \<notin> set mid)"
proof
  assume g: "generatedHere s"
  then obtain r where r: "s = ''generated'' @ r" by (auto simp: generatedHere_def HasPrefix_iff)
  then have "drop 9 s = r" by simp
  with g have "dotGoAhead r" by (simp add: generatedHere_def)
  with r show "\<exists>mid. s = ''generated'' @ mid @ ''.go'' \<and> newline \<notin> set mid"
    unfolding dotGoAhead_iff by blast
next
  assume "\<exists>mid. s = ''generated'' @ mid @ ''.go'' \<and> newline \<notin> set mid"
  then obtain mid where m: "s = ''generated'' @ mid @ ''.go''" "newline \<notin> set mid" by blast
  then have "drop 9 s = mid @ ''.go''" by simp
  moreover have "HasPrefix s ''generated''" unfolding HasPrefix_iff using m(1) by blast
  moreover have "dotGoAhead (mid @ ''.go'')" unfolding dotGoAhead_iff using m(2) by blast
  ultimately show "generatedHere s" by (simp add: generatedHere_def)
qed

lemma generatedName_iff:
  "generatedName s \<longleftrightarrow>
   (\<exists>pre mid. s = pre @ ''generated'' @ mid @ ''.go'' \<and> newline \<notin> set mid)"
proof (induction s)
  case Nil
  then show ?case by simp
next
  case (Cons c cs)
  show ?case
  proof
    assume "generatedName (c # cs)"
    then consider "generatedHere (c # cs)" | "generatedName cs" by auto
    then show "\<exists>pre mid. c # cs = pre @ ''generated'' @ mid @ ''.go'' \<and> newline \<notin> set mid"
    proof cases
      case 1
      then obtain mid where "c # cs = [] @ ''generated'' @ mid @ ''.go''" "newline \<notin> set mid"
        unfolding generatedHere_iff by auto
      then show ?thesis by blast
    next
      case 2
      with Cons obtain pre mid where "cs = pre @ ''generated'' @ mid @ ''.go''"
        "newline \<notin> set mid" by blast
      then have "c # cs = (c # pre) @ ''generated'' @ mid @ ''.go''" by simp
      with \<open>newline \<notin> set mid\<close> show ?thesis by blast
    qed
  next
    assume "\<exists>pre mid. c # cs = pre @ ''generated'' @ mid @ ''.go'' \<and> newline \<notin> set mid"
    then obtain pre mid where pm: "c # cs = pre @ ''generated'' @ mid @ ''.go''"
      "newline \<notin> set mid" by blast
    show "generatedName (c # cs)"
    proof (cases pre)
      case Nil
      with pm have "generatedHere (c # cs)" unfolding generatedHere_iff by auto
      then show ?thesis by simp
    next
      case (Cons d pre')
      with pm have "cs = pre' @ ''generated'' @ mid @ ''.go''" by simp
      with pm(2) Cons.IH have "generatedName cs" by blast
      then show ?thesis by simp
    qed
  qed
qed

text \<open>
  C5: a path matches the pattern of generated files exactly when it contains
  \<open>generated\<close> followed, without a newline in between, by \<open>.go\<close> at its end. For such a
  path the closure of \<open>checkCoverage\<close> returns at once: it writes no diagnostic and leaves
  the exit code as it is, whatever the regions of the path are. For every other path it
  compares the regions with the budget.
\<close>

theorem generated_paths_skipped:
  "(MatchString generatedFile pth \<longleftrightarrow>
      (\<exists>pre mid. pth = pre @ ''generated'' @ mid @ ''.go'' \<and> newline \<notin> set mid)) \<and>
   (MatchString generatedFile pth \<longrightarrow> checkPath e Location wd pth sections st = Inr st) \<and>
   (\<not> MatchString generatedFile pth \<longrightarrow>
      checkPath e Location wd pth sections st = compareWithBudget e Location wd pth sections st)"
proof (intro conjI)
  show "MatchString generatedFile pth \<longleftrightarrow>
      (\<exists>pre mid. pth = pre @ ''generated'' @ mid @ ''.go'' \<and> newline \<notin> set mid)"
    by (simp only: MatchString_generatedFile generatedName_iff)
next
  show "MatchString generatedFile pth \<longrightarrow> checkPath e Location wd pth sections st = Inr st"
    by (simp add: checkPath_def)
next
  show "\<not> MatchString generatedFile pth \<longrightarrow>
      checkPath e Location wd pth sections st = compareWithBudget e Location wd pth sections st"
    by (simp add: checkPath_def)
qed

theorem generated_paths_skipped_witness:
  "MatchString generatedFile exGenerated \<and>
   checkPath exEnv exLocation exWd exGenerated [secA, secA, secB, secC, secTop] (0, []) = Inr (0, []) \<and>
   \<not> MatchString generatedFile ''a.go'' \<and>
   checkPath exEnv exLocation exWd ''a.go'' [secA] (0, [])
     = Inr (1, [NewUntested ''a.go'' 1 0, LocationLine ''a.go:7.2,9.3''])"
proof -
  have g: "MatchString generatedFile exGenerated" by code_simp
  have n: "\<not> MatchString generatedFile ''a.go''" by code_simp
  have c: "compareWithBudget exEnv exLocation exWd ''a.go'' [secA] (0, [])
     = Inr (1, [NewUntested ''a.go'' 1 0, LocationLine ''a.go:7.2,9.3''])" by code_simp
  from generated_paths_skipped [of exGenerated exEnv exLocation exWd
      "[secA, secA, secB, secC, secTop]" "(0, [])"]
    generated_paths_skipped [of "''a.go''" exEnv exLocation exWd "[secA]" "(0, [])"]
    g n c show ?thesis by simp
qed

subsection \<open>The exit code\<close>

lemma scanSection_kept_inside:
  "scanSection ls s l acc = Inr (acc @ [s]) \<Longrightarrow>
   1 \<le> l \<and> l \<le> endLine s \<and> endLine s \<le> int (length ls)"
proof (induction "nat (endLine s + 1 - l)" arbitrary: l)
  case 0
  then have "endLine s < l" by simp
  with "0.prems" show ?case by (simp add: scanSection_past)
next
  case (Suc n)
  then have le: "l \<le> endLine s" by simp
  from Suc.prems le obtain v where v: "ignoredAt ls l = Inr v"
    by (subst (asm) scanSection.simps) (auto split: sum.splits)
  then have in1: "1 \<le> l" "l \<le> int (length ls)"
    by (auto simp: ignoredAt_def lineAt_def split: if_splits)
  have nv: "\<not> v"
  proof
    assume v
    with Suc.prems le \<open>ignoredAt ls l = Inr v\<close> show False
      by (subst (asm) scanSection.simps) simp
  qed
  show ?case
  proof (cases "l = endLine s")
    case True
    with in1 show ?thesis by simp
  next
    case False
    with Suc.prems le v nv have "scanSection ls s (l + 1) acc = Inr (acc @ [s])"
      by (subst (asm) scanSection.simps) simp
    moreover have "n = nat (endLine s + 1 - (l + 1))" using Suc.hyps(2) by simp
    ultimately have "1 \<le> l + 1 \<and> l + 1 \<le> endLine s \<and> endLine s \<le> int (length ls)"
      by (rule Suc.hyps(1) [rotated])
    with in1 le show ?thesis by simp
  qed
qed

lemma scanSection_survivor:
  assumes "scanSection ls s (startLine s) acc = Inr r"
  shows "r = acc @ survivors ls [s]"
proof (cases "inRange ls s")
  case True
  from scanSection_suppressed [OF True, of acc] assms True show ?thesis
    by (simp add: survivors_def)
next
  case False
  from scanSection_shape [OF assms] have "r = acc \<or> r = acc @ [s]" .
  moreover have "r \<noteq> acc @ [s]"
  proof
    assume "r = acc @ [s]"
    with assms scanSection_kept_inside [of ls s "startLine s" acc] have "inRange ls s"
      by (simp add: inRange_def)
    with False show False ..
  qed
  ultimately show ?thesis using False by (simp add: survivors_def)
qed

lemma removeLoop_survivors:
  "removeLoop ls secs acc = Inr r \<Longrightarrow> r = acc @ survivors ls secs"
proof (induction secs arbitrary: acc)
  case Nil
  then show ?case by (simp add: survivors_def)
next
  case (Cons s secs)
  from Cons.prems obtain d where d: "scanSection ls s (startLine s) acc = Inr d"
    and rest: "removeLoop ls secs d = Inr r" by (auto split: sum.splits)
  from scanSection_survivor [OF d] Cons.IH [OF rest] show ?case
    by (simp add: survivors_def)
qed

lemma filter_survivors:
  "removeSectionsMarkedWithInlineComment secs ls = Inr kept \<Longrightarrow> kept = survivors ls secs"
  using removeLoop_survivors [of ls secs "[]" kept]
  by (simp add: removeSectionsMarkedWithInlineComment_def)

lemma compareWithBudget_exceeds:
  assumes "compareWithBudget e Location wd pth sections (code, out) = Inr (code', out')"
  shows "code' = (if exceedsBudget e wd pth sections then 1 else code)"
proof -
  from assms obtain dp rp where n: "normalizeCoveredPath e pth wd = Inr (dp, rp)"
    by (auto simp: compareWithBudget_def split: sum.splits)
  from assms n obtain conf cl where c: "configuredUntestedForFile e rp = Inr (conf, cl)"
    by (auto simp: compareWithBudget_def split: sum.splits)
  from c obtain content where f: "files e rp = Some content"
    by (auto simp: configuredUntestedForFile_def readFile_def split: option.splits)
  with c have conf: "conf = fst (configuredBudget content)"
    by (simp add: configuredUntestedForFile_def readFile_def configuredUntestedOf_eq)
  from assms n c f obtain kept where
    k: "removeSectionsMarkedWithInlineComment sections (Split content [newline]) = Inr kept"
    by (auto simp: compareWithBudget_def readFile_def split: sum.splits)
  from filter_survivors [OF k] have kept: "kept = survivors (Split content [newline]) sections" .
  have ex: "exceedsBudget e wd pth sections \<longleftrightarrow> conf < int (length kept)"
    by (simp add: exceedsBudget_def n f conf kept)
  from assms n c f k show ?thesis unfolding ex
    by (auto simp: compareWithBudget_def readFile_def Let_def split: if_splits)
qed

lemma checkPath_code:
  assumes "checkPath e Location wd pth sections (code, out) = Inr (code', out')"
  shows "code' = (if \<not> generatedName pth \<and> exceedsBudget e wd pth sections then 1 else code)"
  using assms compareWithBudget_exceeds [of e Location wd pth sections code out code' out']
  by (auto simp: checkPath_def MatchString_generatedFile split: if_splits)

lemma iterateLoop_code:
  assumes "iterateLoop (checkPath e Location wd) kvs (code, out) = Inr (code', out')"
    and "code = 0 \<or> code = 1"
  shows "code' = (if \<exists>(p, secs) \<in> set kvs. \<not> generatedName p \<and> exceedsBudget e wd p secs
                  then 1 else code)"
  using assms
proof (induction kvs arbitrary: code out)
  case Nil
  then show ?case by simp
next
  case (Cons kv kvs)
  obtain p secs where kv: "kv = (p, secs)" by (cases kv)
  from Cons.prems(1) kv obtain c1 o1 where
    step: "checkPath e Location wd p secs (code, out) = Inr (c1, o1)" and
    rest: "iterateLoop (checkPath e Location wd) kvs (c1, o1) = Inr (code', out')"
    by (auto split: sum.splits)
  from checkPath_code [OF step]
  have c1: "c1 = (if \<not> generatedName p \<and> exceedsBudget e wd p secs then 1 else code)" .
  with Cons.prems(2) have "c1 = 0 \<or> c1 = 1" by auto
  from Cons.IH [OF rest this] c1 kv Cons.prems(2) show ?case by auto
qed

lemma groupLoop_distinct:
  "distinct (map fst grouped) \<Longrightarrow> distinct (map fst (groupLoop sections grouped))"
  by (induction sections arbitrary: grouped) (simp_all add: Let_def distinct_update)

lemma groupLoop_map_of:
  "map_of (groupLoop sections grouped) p =
     (if regionsOf sections p = [] then map_of grouped p
      else Some ((case map_of grouped p of None \<Rightarrow> [] | Some g \<Rightarrow> g) @ regionsOf sections p))"
proof (induction sections arbitrary: grouped)
  case Nil
  then show ?case by (simp add: regionsOf_def)
next
  case (Cons s sections)
  show ?case
    by (simp add: Cons Let_def update_conv' regionsOf_def split: option.splits)
qed

lemma groupSectionsByPath_iff:
  "(p, secs) \<in> set (groupSectionsByPath sections) \<longleftrightarrow>
     secs = regionsOf sections p \<and> secs \<noteq> []"
proof -
  have d: "distinct (map fst (groupSectionsByPath sections))"
    unfolding groupSectionsByPath_def by (rule groupLoop_distinct) simp
  have "(p, secs) \<in> set (groupSectionsByPath sections)
      \<longleftrightarrow> map_of (groupSectionsByPath sections) p = Some secs"
    using d by simp
  also have "\<dots> \<longleftrightarrow> secs = regionsOf sections p \<and> secs \<noteq> []"
    unfolding groupSectionsByPath_def groupLoop_map_of by auto
  finally show ?thesis .
qed

lemma regionsOf_Nil_iff: "regionsOf sections p \<noteq> [] \<longleftrightarrow> p \<in> path ` set sections"
  by (auto simp: regionsOf_def filter_empty_conv)

text \<open>
  C2: when \<open>checkCoverage\<close> returns, its exit code is 1 exactly when some file of the
  profile that is not a generated file has more regions left after suppression than its
  budget allows, and 0 otherwise: a file whose count equals its budget or lies below it
  does not make the run fail. The regions left are those that no marker suppresses, and
  the budget is the number of the first budget comment of the file, 0 without one.
\<close>

theorem exit_code_iff_over_budget:
  assumes "untestedSections e NewSection coverageFilePath = Inr untested"
    and "Getwd e = Some wd"
    and "checkCoverage e NewSection Location coverageFilePath = Inr (exitCode, out)"
  shows "(exitCode = 1 \<longleftrightarrow>
            (\<exists>p \<in> path ` set untested.
               \<not> generatedName p \<and> exceedsBudget e wd p (regionsOf untested p))) \<and>
         (exitCode = 0 \<or> exitCode = 1)"
proof -
  let ?kvs = "sort_key fst (groupSectionsByPath untested)"
  from assms have run: "iterateLoop (checkPath e Location wd) ?kvs (0, []) = Inr (exitCode, out)"
    by (simp add: checkCoverage_def iterateBySortedKey_def Let_def)
  have "exitCode =
      (if \<exists>(p, secs) \<in> set ?kvs. \<not> generatedName p \<and> exceedsBudget e wd p secs
       then 1 else 0)"
    by (rule iterateLoop_code [OF run]) simp
  moreover have "(\<exists>(p, secs) \<in> set ?kvs. \<not> generatedName p \<and> exceedsBudget e wd p secs)
      \<longleftrightarrow> (\<exists>p \<in> path ` set untested.
             \<not> generatedName p \<and> exceedsBudget e wd p (regionsOf untested p))"
  proof
    assume "\<exists>(p, secs) \<in> set ?kvs. \<not> generatedName p \<and> exceedsBudget e wd p secs"
    then obtain p secs where ps: "(p, secs) \<in> set (groupSectionsByPath untested)"
      "\<not> generatedName p" "exceedsBudget e wd p secs" by auto
    from ps(1) have "secs = regionsOf untested p" "regionsOf untested p \<noteq> []"
      unfolding groupSectionsByPath_iff by auto
    with ps(2,3) show "\<exists>p \<in> path ` set untested.
        \<not> generatedName p \<and> exceedsBudget e wd p (regionsOf untested p)"
      unfolding regionsOf_Nil_iff by blast
  next
    assume "\<exists>p \<in> path ` set untested.
        \<not> generatedName p \<and> exceedsBudget e wd p (regionsOf untested p)"
    then obtain p where p: "p \<in> path ` set untested" "\<not> generatedName p"
      "exceedsBudget e wd p (regionsOf untested p)" by blast
    from p(1) have "(p, regionsOf untested p) \<in> set (groupSectionsByPath untested)"
      unfolding groupSectionsByPath_iff regionsOf_Nil_iff [symmetric] by simp
    with p(2,3) show "\<exists>(p, secs) \<in> set ?kvs.
        \<not> generatedName p \<and> exceedsBudget e wd p secs" by auto
  qed
  ultimately show ?thesis by auto
qed

theorem exit_code_iff_over_budget_witness:
  "untestedSections exEnv exNewSection ''coverage.out'' = Inr [secA, secC] \<and>
   Getwd exEnv = Some exWd \<and>
   checkCoverage exEnv exNewSection exLocation ''coverage.out''
     = Inr (1, [NewUntested ''a.go'' 1 0, LocationLine ''a.go:7.2,9.3'']) \<and>
   exceedsBudget exEnv exWd ''a.go'' (regionsOf [secA, secC] ''a.go'') \<and>
   \<not> exceedsBudget exEnv exWd ''b.go'' (regionsOf [secA, secC] ''b.go'') \<and>
   (\<exists>p \<in> path ` set [secA, secC].
      \<not> generatedName p \<and> exceedsBudget exEnv exWd p (regionsOf [secA, secC] p)) \<and>
   untestedSections exEnvMarked exNewSection ''coverage.out'' = Inr [secD] \<and>
   Getwd exEnvMarked = Some exWd \<and>
   checkCoverage exEnvMarked exNewSection exLocation ''coverage.out'' = Inr (0, []) \<and>
   survivors exLines [secD] = [] \<and>
   \<not> (\<exists>p \<in> path ` set [secD].
      \<not> generatedName p \<and> exceedsBudget exEnvMarked exWd p (regionsOf [secD] p))"
proof -
  have u: "untestedSections exEnv exNewSection ''coverage.out'' = Inr [secA, secC]" by code_simp
  have w: "Getwd exEnv = Some exWd" by code_simp
  have c: "checkCoverage exEnv exNewSection exLocation ''coverage.out''
     = Inr (1, [NewUntested ''a.go'' 1 0, LocationLine ''a.go:7.2,9.3''])" by code_simp
  have a: "exceedsBudget exEnv exWd ''a.go'' (regionsOf [secA, secC] ''a.go'')" by code_simp
  have b: "\<not> exceedsBudget exEnv exWd ''b.go'' (regionsOf [secA, secC] ''b.go'')" by code_simp
  have u': "untestedSections exEnvMarked exNewSection ''coverage.out'' = Inr [secD]" by code_simp
  have w': "Getwd exEnvMarked = Some exWd" by code_simp
  have c': "checkCoverage exEnvMarked exNewSection exLocation ''coverage.out'' = Inr (0, [])"
    by code_simp
  have s: "survivors exLines [secD] = []" by code_simp
  from exit_code_iff_over_budget [OF u w c] exit_code_iff_over_budget [OF u' w' c']
    u w c a b u' w' c' s show ?thesis by simp
qed

section \<open>The regions are printed in the order of their sort keys\<close>

lemma mset_insertBy: "mset (insertBy lessFn x ys) = add_mset x (mset ys)"
  by (induction ys) simp_all

lemma mset_sortSlice: "mset (sortSlice lessFn xs) = mset xs"
  by (induction xs) (simp_all add: mset_insertBy)

lemma set_insertBy: "set (insertBy lessFn x ys) = insert x (set ys)"
  by (induction ys) auto

lemma sorted_insertBy:
  "sorted (map sortValue ys) \<Longrightarrow>
   sorted (map sortValue (insertBy (\<lambda>a b. sortValue a < sortValue b) x ys))"
  by (induction ys) (auto simp: set_insertBy)

lemma sorted_sortSlice:
  "sorted (map sortValue (sortSlice (\<lambda>a b. sortValue a < sortValue b) xs))"
  by (induction xs) (simp_all add: sorted_insertBy)

text \<open>
  C8: whatever the order in which the regions of a file arrive, the location lines that
  \<open>printUntestedSections\<close> prints after the header are the lines of an arrangement of
  the same regions that is non-decreasing in \<open>sortValue\<close>.
\<close>

theorem printed_regions_sorted:
  assumes "mset sections' = mset sections"
  shows "\<exists>ys. mset ys = mset sections \<and> sorted (map sortValue ys) \<and>
           tl (printUntestedSections Location sections' displayPath details)
             = locationLines Location displayPath ys"
proof -
  let ?ys = "sortSlice (\<lambda>a b. sortValue a < sortValue b) sections'"
  have "mset ?ys = mset sections" using assms by (simp add: mset_sortSlice)
  moreover have "sorted (map sortValue ?ys)" by (rule sorted_sortSlice)
  moreover have "tl (printUntestedSections Location sections' displayPath details)
      = locationLines Location displayPath ?ys"
    by (simp add: printUntestedSections_def locationLines_def)
  ultimately show ?thesis by blast
qed

theorem printed_regions_sorted_witness:
  "mset [secA, secB] = mset [secB, secA] \<and>
   (\<exists>ys. mset ys = mset [secB, secA] \<and> sorted (map sortValue ys) \<and>
      tl (printUntestedSections (\<lambda>s. ''L'') [secA, secB] ''a.go'' (2, 0))
        = locationLines (\<lambda>s. ''L'') ''a.go'' ys) \<and>
   tl (printUntestedSections (\<lambda>s. ''L'') [secA, secB] ''a.go'' (2, 0))
     = locationLines (\<lambda>s. ''L'') ''a.go'' [secB, secA]"
proof -
  have h: "mset [secA, secB] = mset [secB, secA]" by simp
  have "tl (printUntestedSections (\<lambda>s. ''L'') [secA, secB] ''a.go'' (2, 0))
     = locationLines (\<lambda>s. ''L'') ''a.go'' [secB, secA]"
    by (simp add: printUntestedSections_def locationLines_def secA_def secB_def)
  with h printed_regions_sorted [OF h] show ?thesis by blast
qed

end
